theory Spec2Isabelle
  imports Main
begin

section \<open>The comment data model (types.ts)\<close>

text \<open>
  A JavaScript string is a sequence of UTF-16 code units; a code unit is kept as a natural
  number. \<open>Comment\<close> follows the interface of the same name in \<open>types.ts\<close>: \<open>id\<close> is
  \<open>id_c\<close> here (\<open>id\<close> is HOL's identity function) and optional fields are options.
  The interface declares \<open>replies: Comment[]\<close>, but the components guard every read of it
  (\<open>comment.replies || []\<close>, \<open>comment.replies && ...\<close>), so a missing array is part
  of the model: \<open>replies\<close> is an option. The only moderation status the record carries
  is the boolean \<open>is_approved\<close>.
\<close>

type_synonym jstring = "nat list"

datatype comment = Comment
  (id_c: int)
  (post_id: int)
  (parent_id: "int option")
  (author_name: jstring)
  (author_email: "jstring option")
  (content: jstring)
  (is_approved: bool)
  (ip_address: "jstring option")
  (created_at: jstring)
  (replies: "comment list option")

text \<open>\<open>comment.replies || []\<close>: an array, even an empty one, is truthy.\<close>

definition replies_or_empty :: "comment \<Rightarrow> comment list" where
  "replies_or_empty c = (case replies c of None \<Rightarrow> [] | Some rs \<Rightarrow> rs)"

section \<open>Dates\<close>

text \<open>
  Both the thread and the moderation table format \<open>new Date(comment.created_at)\<close> with
  date-fns (\<open>formatDistanceToNow\<close>, \<open>format\<close>), which throws a \<open>RangeError\<close> when the
  date is invalid. Which strings \<open>new Date\<close> parses is the JavaScript engine's matter, so
  the components take it as the argument \<open>validDate\<close>. A throw while rendering leaves
  nothing of the component on the page: rendering returns the error or the elements. The
  text the date is formatted to depends on the clock and is not kept.
\<close>

datatype render_error = RangeError

text \<open>
  \<open>collect\<close> gathers the renderings of the children of an element: the first throw is
  the throw of the whole.
\<close>

fun collect :: "('e + 'a) list \<Rightarrow> 'e + 'a list" where
  "collect [] = Inr []"
| "collect (x # xs) =
     (case x of
        Inl e \<Rightarrow> Inl e
      | Inr a \<Rightarrow> (case collect xs of Inl e \<Rightarrow> Inl e | Inr as \<Rightarrow> Inr (a # as)))"

text \<open>
  One form of the ECMAScript date-time string format that every engine parses:
  \<open>YYYY-MM-DDTHH:mm:ssZ\<close>, here with the day kept to 28 so that it exists in every
  month. \<open>isoDate\<close> recognises it and stands for the engine where an example is
  evaluated; \<open>date_2024\<close> is \<open>2024-01-15T10:30:00Z\<close>.
\<close>

definition digits :: "jstring \<Rightarrow> nat \<Rightarrow> bool" where
  "digits s i \<longleftrightarrow> 48 \<le> s ! i \<and> s ! i \<le> 57 \<and> 48 \<le> s ! (i + 1) \<and> s ! (i + 1) \<le> 57"

definition field :: "jstring \<Rightarrow> nat \<Rightarrow> nat" where
  "field s i = (s ! i - 48) * 10 + (s ! (i + 1) - 48)"

definition isoDate :: "jstring \<Rightarrow> bool" where
  "isoDate s \<longleftrightarrow>
     length s = 20
     \<and> digits s 0 \<and> digits s 2 \<and> s ! 4 = 45
     \<and> digits s 5 \<and> 1 \<le> field s 5 \<and> field s 5 \<le> 12 \<and> s ! 7 = 45
     \<and> digits s 8 \<and> 1 \<le> field s 8 \<and> field s 8 \<le> 28 \<and> s ! 10 = 84
     \<and> digits s 11 \<and> field s 11 \<le> 23 \<and> s ! 13 = 58
     \<and> digits s 14 \<and> field s 14 \<le> 59 \<and> s ! 16 = 58
     \<and> digits s 17 \<and> field s 17 \<le> 59 \<and> s ! 19 = 90"

definition date_2024 :: jstring where
  "date_2024 = [50, 48, 50, 52, 45, 48, 49, 45, 49, 53, 84, 49, 48, 58, 51, 48, 58, 48, 48, 90]"

section \<open>Counting (countAllComments of the Comments component)\<close>

text \<open>
  \<open>comments.reduce((count, comment) => count + 1 + countAllComments(comment.replies || []), 0)\<close>.
  The count is a JavaScript number; it is exact below \<open>2^53\<close> and modelled as a natural
  number.
\<close>

function countAllComments :: "comment list \<Rightarrow> nat" where
  "countAllComments comments =
     foldl (\<lambda>count comment. count + 1 + countAllComments (replies_or_empty comment)) 0 comments"
  by pat_completeness auto
termination
proof (relation "measure (size_list size)")
  fix comments :: "comment list" and x
  assume "x \<in> set comments"
  then have "size x \<le> size_list size comments"
    by (induction comments) auto
  moreover have "size_list size (replies_or_empty x) < size x"
    by (cases x) (auto simp: replies_or_empty_def split: option.splits)
  ultimately show "(replies_or_empty x, comments) \<in> measure (size_list size)"
    by simp
qed simp

declare countAllComments.simps [simp del]

section \<open>Positions in a comment tree\<close>

text \<open>
  A position is the list of child indices leading from the top-level list to a node:
  \<open>[i]\<close> is the \<open>i\<close>-th root, \<open>p @ [j]\<close> the \<open>j\<close>-th reply of the node at \<open>p\<close>.
  \<open>node_at\<close> reads the node at a position, \<open>paths\<close> lists the positions in display
  order, and the depth of a position is its length less one (roots have depth 0).
\<close>

fun node_at :: "comment list \<Rightarrow> nat list \<Rightarrow> comment option" where
  "node_at cs [] = None"
| "node_at cs [i] = (if i < length cs then Some (cs ! i) else None)"
| "node_at cs (i # j # p) =
     (if i < length cs then node_at (replies_or_empty (cs ! i)) (j # p) else None)"

function paths :: "comment list \<Rightarrow> nat list list" where
  "paths cs =
     concat (map (\<lambda>i. [i] # map ((#) i) (paths (replies_or_empty (cs ! i)))) [0..<length cs])"
  by pat_completeness auto
termination
proof (relation "measure (size_list size)")
  fix cs :: "comment list" and i
  assume "i \<in> set [0..<length cs]"
  then have "cs ! i \<in> set cs"
    by simp
  then have "size (cs ! i) \<le> size_list size cs"
    by (simp add: size_list_estimation')
  moreover have "size_list size (replies_or_empty (cs ! i)) < size (cs ! i)"
    by (cases "cs ! i") (auto simp: replies_or_empty_def split: option.splits)
  ultimately show "(replies_or_empty (cs ! i), cs) \<in> measure (size_list size)"
    by simp
qed simp

declare paths.simps [simp del]

definition depth_of :: "nat list \<Rightarrow> nat" where
  "depth_of p = length p - 1"

text \<open>
  \<open>dates_parse\<close> holds of a tree when the date of every comment in it parses.
\<close>

definition dates_parse :: "(jstring \<Rightarrow> bool) \<Rightarrow> comment list \<Rightarrow> bool" where
  "dates_parse validDate cs \<longleftrightarrow>
     list_all (\<lambda>p. case node_at cs p of None \<Rightarrow> True | Some c \<Rightarrow> validDate (created_at c))
       (paths cs)"

text \<open>
  Example comments, all approved and dated \<open>date_2024\<close>, and the tree of the spec's count
  example: comments at depths 0, 1, 1 and 2.
\<close>

definition leaf :: "int \<Rightarrow> int option \<Rightarrow> comment" where
  "leaf i parent = Comment i 1 parent [65] None [104, 105] True None date_2024 None"

definition node :: "int \<Rightarrow> int option \<Rightarrow> comment list \<Rightarrow> comment" where
  "node i parent rs = Comment i 1 parent [65] None [104, 105] True None date_2024 (Some rs)"

definition tree_0112 :: "comment list" where
  "tree_0112 = [node 1 None [leaf 2 (Some 1), node 3 (Some 1) [leaf 4 (Some 3)]]]"

section \<open>The submission form (CommentForm)\<close>

text \<open>
  \<open>String.prototype.trim\<close> strips the code units of ECMAScript's WhiteSpace and
  LineTerminator productions from both ends. A string is falsy exactly when it is empty.
\<close>

definition isWhiteSpace :: "nat \<Rightarrow> bool" where
  "isWhiteSpace u \<longleftrightarrow>
     u \<in> {0x9, 0xA, 0xB, 0xC, 0xD, 0x20, 0xA0, 0x1680, 0x2028, 0x2029, 0x202F, 0x205F,
          0x3000, 0xFEFF}
     \<or> (0x2000 \<le> u \<and> u \<le> 0x200A)"

definition trim :: "jstring \<Rightarrow> jstring" where
  "trim s = rev (dropWhile isWhiteSpace (rev (dropWhile isWhiteSpace s)))"

text \<open>
  A required field is blank when it holds nothing but white space (the empty string
  included): the reading of "missing or blank" that the form's check is compared with.
\<close>

definition blank :: "jstring \<Rightarrow> bool" where
  "blank s \<longleftrightarrow> list_all isWhiteSpace s"

text \<open>\<open>CommentCreate\<close> of \<open>types.ts\<close>, the body of the submission request.\<close>

record comment_create =
  author_name_cc :: jstring
  author_email_cc :: "jstring option"
  content_cc :: jstring
  parent_id_cc :: "int option"
  honeypot_cc :: jstring
  form_timestamp_cc :: int

text \<open>
  The props of \<open>CommentForm\<close> (\<open>onCancel\<close> records whether the callback was passed)
  and its hooks: the five \<open>useState\<close> cells the handler reads or writes, and the
  \<open>formTimestamp\<close> ref.
\<close>

record comment_form_props =
  postSlug :: jstring
  parentId :: "int option"
  onCancel :: bool
  isReply :: bool

record comment_form =
  name :: jstring
  email :: jstring
  content_f :: jstring
  honeypot :: jstring
  isSubmitting :: bool
  error :: "string option"
  formTimestamp :: int

text \<open>
  Everything the components do to the world outside their own state, in the order it
  happens: the calls of \<open>api/client.ts\<close>, the writes to \<open>localStorage\<close>, the toasts and
  the callbacks handed down by the parent. Messages are kept as the keys given to the
  translation function \<open>t\<close>.
\<close>

datatype toast_type = Success | Info | Error

datatype effect =
    CreateComment jstring comment_create
  | DeleteComment int
  | SetItem string jstring
  | ShowToast string toast_type
  | OnCommentAdded
  | OnCancel

definition STORAGE_KEY_NAME :: string where
  "STORAGE_KEY_NAME = ''comment_author_name''"

definition STORAGE_KEY_EMAIL :: string where
  "STORAGE_KEY_EMAIL = ''comment_author_email''"

text \<open>
  \<open>localStorage.setItem\<close>, \<open>showToast\<close> and the callbacks are calls into the browser
  and into the parent, and any of them may throw; \<open>throws\<close> says of a call whether it
  does. Of a sequence of calls made in order, \<open>completed\<close> are those that returned before
  the first throw, and \<open>thrown\<close> says whether one threw.
\<close>

definition completed :: "(effect \<Rightarrow> bool) \<Rightarrow> effect list \<Rightarrow> effect list" where
  "completed throws calls = takeWhile (\<lambda>c. \<not> throws c) calls"

definition thrown :: "(effect \<Rightarrow> bool) \<Rightarrow> effect list \<Rightarrow> bool" where
  "thrown throws calls = list_ex throws calls"

text \<open>
  The calls of the \<open>try\<close> block after the awaited \<open>createComment\<close> has resolved with
  \<open>newComment\<close>: first the writes to \<open>localStorage\<close>, then, after \<open>setContent('')\<close>,
  the toast and the callbacks.
\<close>

definition writes :: "comment_form \<Rightarrow> effect list" where
  "writes st =
     [SetItem STORAGE_KEY_NAME (trim (name st))]
     @ (if trim (email st) \<noteq> [] then [SetItem STORAGE_KEY_EMAIL (trim (email st))] else [])"

definition signals :: "comment_form_props \<Rightarrow> comment \<Rightarrow> effect list" where
  "signals props newComment =
     (if \<not> is_approved newComment then [ShowToast ''comments.awaitingApproval'' Info]
      else [ShowToast ''comments.commentAdded'' Success, OnCommentAdded])
     @ (if onCancel props then [OnCancel] else [])"

text \<open>
  \<open>handleSubmit\<close>, run to completion. The outcome of the awaited \<open>createComment\<close> is an
  argument: \<open>Inr c\<close> when the promise resolves with the stored comment, \<open>Inl e\<close> when it
  rejects with \<open>e\<close> (any non-2xx answer, any network failure). It is only looked at when
  the request is made. The result is the form's state after the handler and the calls
  that were made and returned. A throw anywhere in the \<open>try\<close> block, of the request or of
  a later call, ends the block in the bare \<open>catch\<close>, which sets the error
  \<open>comments.error\<close>; what was done before the throw stays done. The \<open>finally\<close> block
  sets \<open>isSubmitting\<close> back to false.
\<close>

definition handleSubmit ::
  "(effect \<Rightarrow> bool) \<Rightarrow> comment_form_props \<Rightarrow> comment_form \<Rightarrow> 'e + comment
     \<Rightarrow> comment_form \<times> effect list" where
  "handleSubmit throws props st response =
     (if trim (name st) = [] \<or> trim (content_f st) = [] then
        (st\<lparr>error := Some ''comments.validationError''\<rparr>, [])
      else
        let request = CreateComment (postSlug props)
              \<lparr>author_name_cc = trim (name st),
               author_email_cc = (if trim (email st) = [] then None else Some (trim (email st))),
               content_cc = trim (content_f st),
               parent_id_cc = parentId props,
               honeypot_cc = honeypot st,
               form_timestamp_cc = formTimestamp st\<rparr>
        in case response of
             Inl e \<Rightarrow>
               (st\<lparr>isSubmitting := False, error := Some ''comments.error''\<rparr>, [request])
           | Inr newComment \<Rightarrow>
               if thrown throws (writes st) then
                 (st\<lparr>isSubmitting := False, error := Some ''comments.error''\<rparr>,
                  request # completed throws (writes st))
               else
                 (st\<lparr>isSubmitting := False,
                     error := (if thrown throws (signals props newComment)
                               then Some ''comments.error'' else None),
                     content_f := []\<rparr>,
                  request # writes st @ completed throws (signals props newComment)))"

text \<open>Two forms as a reader may leave them: one filled in, one with a blank name.\<close>

definition filled_form :: comment_form where
  "filled_form =
     \<lparr>name = [32, 65, 110, 110], email = [], content_f = [104, 105, 10], honeypot = [],
      isSubmitting = False, error = None, formTimestamp = 1700000000\<rparr>"

definition blank_name_form :: comment_form where
  "blank_name_form = filled_form\<lparr>name := [32, 9, 160]\<rparr>"

fun is_toast :: "effect \<Rightarrow> bool" where
  "is_toast (ShowToast message type) = True"
| "is_toast other = False"

text \<open>
  Two environments: one in which no call throws, and one in which \<open>localStorage\<close> refuses
  every write (its quota is used up, or storage is disabled).
\<close>

definition nothing_throws :: "effect \<Rightarrow> bool" where
  "nothing_throws call = False"

fun storage_throws :: "effect \<Rightarrow> bool" where
  "storage_throws (SetItem key v) = True"
| "storage_throws other = False"

text \<open>A comment as the server returns it for a submission: approved or held.\<close>

definition stored :: "int \<Rightarrow> bool \<Rightarrow> comment" where
  "stored i approved =
     Comment i 1 None [65, 110, 110] None [104, 105] approved None date_2024 None"

text \<open>
  Modelled from the spec: the reasons of the Spam Gate (section 4.2), whose code is not
  among the sources. They stand for what a rejected submission request may carry.
\<close>

datatype reject_reason = Honeypot | TooFast | RateLimited

section \<open>The rendered thread (Comments and CommentThread)\<close>

text \<open>
  What \<open>CommentThread\<close> returns for one comment: the key, whether the class
  \<open>comment-reply\<close> is set (\<open>depth > 0\<close>), the author and body shown, the
  \<open>comment-actions\<close> block when it is rendered, the reply form when it is rendered
  (with the props it is given) and the \<open>comment-replies\<close> block with the nested threads.
\<close>

datatype action = ReplyButton | DeleteButton

datatype element = CommentEl
  (el_key: int)
  (el_comment_reply: bool)
  (el_author: jstring)
  (el_body: jstring)
  (el_actions: "action list option")
  (el_form: "comment_form_props option")
  (el_replies: "element list option")

definition maxDepth :: nat where
  "maxDepth = 4"

text \<open>
  \<open>isAdmin\<close> is the value of \<open>isAdmin()\<close> (an admin token is in \<open>localStorage\<close>).
  Each instance of the component has its own \<open>showReplyForm\<close> cell; an instance is
  identified by its position \<open>path\<close> in the tree, and \<open>showReplyForm\<close> maps positions to
  the cells' values. \<open>depth\<close> is the prop of the source: absent (0) at the roots,
  \<open>depth + 1\<close> in the recursive call. \<open>comment_el\<close> is the element the component
  returns around a given \<open>comment-replies\<close> block.
\<close>

definition comment_el ::
  "bool \<Rightarrow> (nat list \<Rightarrow> bool) \<Rightarrow> jstring \<Rightarrow> nat list \<Rightarrow> comment \<Rightarrow> nat
     \<Rightarrow> element list option \<Rightarrow> element" where
  "comment_el isAdmin showReplyForm slug path comment depth block =
     CommentEl (id_c comment) (depth > 0) (author_name comment) (content comment)
       (if depth < maxDepth then Some (ReplyButton # (if isAdmin then [DeleteButton] else []))
        else None)
       (if showReplyForm path then
          Some \<lparr>postSlug = slug, parentId = Some (id_c comment), onCancel = True, isReply = True\<rparr>
        else None)
       block"

function CommentThread ::
  "(jstring \<Rightarrow> bool) \<Rightarrow> bool \<Rightarrow> (nat list \<Rightarrow> bool) \<Rightarrow> jstring \<Rightarrow> nat list \<Rightarrow> comment \<Rightarrow> nat
     \<Rightarrow> render_error + element" where
  "CommentThread validDate isAdmin showReplyForm slug path comment depth =
     (if \<not> validDate (created_at comment) then Inl RangeError
      else
        case replies comment of
          None \<Rightarrow> Inr (comment_el isAdmin showReplyForm slug path comment depth None)
        | Some rs \<Rightarrow>
            if length rs > 0 then
              (case collect (map (\<lambda>i. CommentThread validDate isAdmin showReplyForm slug
                                        (path @ [i]) (rs ! i) (depth + 1)) [0..<length rs]) of
                 Inl e \<Rightarrow> Inl e
               | Inr es \<Rightarrow>
                   Inr (comment_el isAdmin showReplyForm slug path comment depth (Some es)))
            else Inr (comment_el isAdmin showReplyForm slug path comment depth None))"
  by pat_completeness auto
termination
proof (relation "measure (\<lambda>(v, a, s, g, p, c, d). size c)")
  fix comment :: comment and rs :: "comment list" and i
  assume "replies comment = Some rs" and "i \<in> set [0..<length rs]"
  then have "rs ! i \<in> set rs"
    by simp
  then have "size (rs ! i) \<le> size_list size rs"
    by (simp add: size_list_estimation')
  moreover have "size_list size rs < size comment"
    using \<open>replies comment = Some rs\<close> by (cases comment) auto
  ultimately show "\<And>v a s g p d.
      ((v, a, s, g, p @ [i], rs ! i, d + 1), (v, a, s, g, p, comment, d))
        \<in> measure (\<lambda>(v, a, s, g, p, c, d). size c)"
    by simp
qed simp

declare CommentThread.simps [simp del]

text \<open>
  \<open>Comments\<close>: the title with the total count, the root form (no \<open>parentId\<close>, no
  \<open>onCancel\<close>) and the list, which is the \<open>comments.noComments\<close> paragraph for an empty
  array and one \<open>CommentThread\<close> per root otherwise. A throw in any thread is a throw of
  the section.
\<close>

definition root_props :: "jstring \<Rightarrow> comment_form_props" where
  "root_props slug = \<lparr>postSlug = slug, parentId = None, onCancel = False, isReply = False\<rparr>"

definition threads ::
  "(jstring \<Rightarrow> bool) \<Rightarrow> bool \<Rightarrow> (nat list \<Rightarrow> bool) \<Rightarrow> jstring \<Rightarrow> comment list
     \<Rightarrow> render_error + element list" where
  "threads validDate isAdmin showReplyForm slug comments =
     collect (map (\<lambda>i. CommentThread validDate isAdmin showReplyForm slug [i] (comments ! i) 0)
       [0..<length comments])"

record comments_section =
  title_count :: nat
  root_form :: comment_form_props
  comments_list :: "string + element list"

definition Comments ::
  "(jstring \<Rightarrow> bool) \<Rightarrow> bool \<Rightarrow> (nat list \<Rightarrow> bool) \<Rightarrow> jstring \<Rightarrow> comment list
     \<Rightarrow> render_error + comments_section" where
  "Comments validDate isAdmin showReplyForm slug comments =
     (if length comments = 0 then
        Inr \<lparr>title_count = countAllComments comments, root_form = root_props slug,
             comments_list = Inl ''comments.noComments''\<rparr>
      else
        case threads validDate isAdmin showReplyForm slug comments of
          Inl e \<Rightarrow> Inl e
        | Inr es \<Rightarrow>
            Inr \<lparr>title_count = countAllComments comments, root_form = root_props slug,
                 comments_list = Inr es\<rparr>)"

text \<open>The element at a position of the rendered list, through the \<open>comment-replies\<close> blocks.\<close>

definition el_replies_or_empty :: "element \<Rightarrow> element list" where
  "el_replies_or_empty e = (case el_replies e of None \<Rightarrow> [] | Some es \<Rightarrow> es)"

fun el_at :: "element list \<Rightarrow> nat list \<Rightarrow> element option" where
  "el_at es [] = None"
| "el_at es [i] = (if i < length es then Some (es ! i) else None)"
| "el_at es (i # j # p) =
     (if i < length es then el_at (el_replies_or_empty (es ! i)) (j # p) else None)"

text \<open>A chain of six comments, each the only reply of the one before: depths 0 to 5.\<close>

definition chain6 :: "comment list" where
  "chain6 =
     [node 10 None [node 11 (Some 10) [node 12 (Some 11) [node 13 (Some 12)
        [node 14 (Some 13) [leaf 15 (Some 14)]]]]]]"

section \<open>Using the rendered thread\<close>

text \<open>
  The state of one rendering of \<open>Comments\<close> over a given comment list: the
  \<open>showReplyForm\<close> cell of every \<open>CommentThread\<close> instance (all false at mount) and the
  calls made so far. An event names the position of the control it is fired on, and can
  only be fired on a control that is rendered there; elsewhere, and where the section has
  thrown and shows nothing, the state stays as it is. The reader types what they like
  into a form, so a submit event carries the form's fields, and it carries the outcome of
  the request as \<open>handleSubmit\<close> takes it. \<open>ClickDelete\<close> carries the answer to the
  confirmation dialog and whether \<open>deleteComment\<close> resolved; its handler calls
  \<open>onCommentAdded\<close> after the deletion and shows the toast \<open>comments.deleteError\<close>
  when either throws.
\<close>

record thread_state =
  cells :: "nat list \<Rightarrow> bool"
  issued :: "effect list"

datatype 'e event =
    ClickReply "nat list"
  | ClickCancel "nat list"
  | ClickDelete "nat list" bool bool
  | SubmitReply "nat list" comment_form "'e + comment"
  | SubmitRoot comment_form "'e + comment"

definition mounted :: thread_state where
  "mounted = \<lparr>cells = (\<lambda>p. False), issued = []\<rparr>"

definition rendered_at ::
  "(jstring \<Rightarrow> bool) \<Rightarrow> bool \<Rightarrow> jstring \<Rightarrow> comment list \<Rightarrow> thread_state \<Rightarrow> nat list
     \<Rightarrow> element option" where
  "rendered_at validDate isAdmin slug comments st p =
     (case threads validDate isAdmin (cells st) slug comments of
        Inl e \<Rightarrow> None
      | Inr es \<Rightarrow> el_at es p)"

fun dispatch ::
  "(jstring \<Rightarrow> bool) \<Rightarrow> (effect \<Rightarrow> bool) \<Rightarrow> bool \<Rightarrow> jstring \<Rightarrow> comment list \<Rightarrow> thread_state
     \<Rightarrow> 'e event \<Rightarrow> thread_state" where
  "dispatch validDate throws isAdmin slug comments st (ClickReply p) =
     (case rendered_at validDate isAdmin slug comments st p of
        None \<Rightarrow> st
      | Some e \<Rightarrow>
          (case el_actions e of
             None \<Rightarrow> st
           | Some buttons \<Rightarrow>
               if ReplyButton \<in> set buttons then st\<lparr>cells := (cells st)(p := \<not> cells st p)\<rparr>
               else st))"
| "dispatch validDate throws isAdmin slug comments st (ClickCancel p) =
     (case rendered_at validDate isAdmin slug comments st p of
        None \<Rightarrow> st
      | Some e \<Rightarrow>
          (case el_form e of
             None \<Rightarrow> st
           | Some props \<Rightarrow> if onCancel props then st\<lparr>cells := (cells st)(p := False)\<rparr> else st))"
| "dispatch validDate throws isAdmin slug comments st (ClickDelete p confirmed resolved) =
     (case rendered_at validDate isAdmin slug comments st p of
        None \<Rightarrow> st
      | Some e \<Rightarrow>
          (case el_actions e of
             None \<Rightarrow> st
           | Some buttons \<Rightarrow>
               if DeleteButton \<in> set buttons \<and> confirmed then
                 st\<lparr>issued := issued st @ [DeleteComment (el_key e)]
                      @ (if resolved \<and> \<not> throws OnCommentAdded then [OnCommentAdded]
                         else completed throws [ShowToast ''comments.deleteError'' Error])\<rparr>
               else st))"
| "dispatch validDate throws isAdmin slug comments st (SubmitReply p form response) =
     (case rendered_at validDate isAdmin slug comments st p of
        None \<Rightarrow> st
      | Some e \<Rightarrow>
          (case el_form e of
             None \<Rightarrow> st
           | Some props \<Rightarrow>
               let effects = snd (handleSubmit throws props form response)
               in st\<lparr>cells := (if OnCancel \<in> set effects then (cells st)(p := False)
                               else cells st),
                     issued := issued st @ effects\<rparr>))"
| "dispatch validDate throws isAdmin slug comments st (SubmitRoot form response) =
     (case Comments validDate isAdmin (cells st) slug comments of
        Inl e \<Rightarrow> st
      | Inr sec \<Rightarrow>
          st\<lparr>issued := issued st
             @ snd (handleSubmit throws (root_form sec) form response)\<rparr>)"

definition run ::
  "(jstring \<Rightarrow> bool) \<Rightarrow> (effect \<Rightarrow> bool) \<Rightarrow> bool \<Rightarrow> jstring \<Rightarrow> comment list \<Rightarrow> 'e event list
     \<Rightarrow> thread_state" where
  "run validDate throws isAdmin slug comments events =
     foldl (dispatch validDate throws isAdmin slug comments) mounted events"

text \<open>
  What the effects say about positions of the tree: a submission that names a parent, or
  a deletion, concerns the comment with that identifier; \<open>at_depth_below\<close> holds when
  such a comment stands in the tree at a depth below the bound.
\<close>

definition offered :: "element \<Rightarrow> action set" where
  "offered e = (case el_actions e of None \<Rightarrow> {} | Some buttons \<Rightarrow> set buttons)"

definition at_depth_below :: "comment list \<Rightarrow> nat \<Rightarrow> int \<Rightarrow> bool" where
  "at_depth_below comments d cid \<longleftrightarrow>
     (\<exists>p \<in> set (paths comments). depth_of p < d \<and> map_option id_c (node_at comments p) = Some cid)"

fun target :: "effect \<Rightarrow> int option" where
  "target (CreateComment slug body) = parent_id_cc body"
| "target (DeleteComment cid) = Some cid"
| "target other = None"

text \<open>
  A session on the chain as an admin: reply, submit and delete are tried on the comment at
  depth 4 and then on the comment at depth 3.
\<close>

definition chain6_session :: "reject_reason event list" where
  "chain6_session =
     [ClickReply [0, 0, 0, 0, 0],
      SubmitReply [0, 0, 0, 0, 0] filled_form (Inr (leaf 16 (Some 14))),
      ClickDelete [0, 0, 0, 0, 0] True True,
      ClickReply [0, 0, 0, 0],
      SubmitReply [0, 0, 0, 0] filled_form (Inr (leaf 16 (Some 13))),
      ClickDelete [0, 0, 0, 0] True True]"

text \<open>
  What holds of every state the rendered thread can reach: a reply form is open only at a
  position that exists and lies above \<open>maxDepth\<close>, and every effect issued that names a
  comment names one standing above \<open>maxDepth\<close>.
\<close>

definition thread_inv :: "comment list \<Rightarrow> thread_state \<Rightarrow> bool" where
  "thread_inv cs st \<longleftrightarrow>
     (\<forall>p. cells st p \<longrightarrow> node_at cs p \<noteq> None \<and> depth_of p < maxDepth)
     \<and> (\<forall>eff \<in> set (issued st). \<forall>cid. target eff = Some cid \<longrightarrow> at_depth_below cs maxDepth cid)"

section \<open>The moderation tab (AdminPage of routes/admin) and its client calls\<close>

text \<open>
  A row of the comments table shows the author, the content, the date formatted by
  \<open>format(new Date(comment.created_at), ...)\<close>, a status badge (its class and its label,
  both chosen by \<open>comment.is_approved\<close>) and the buttons of the actions cell. The table is
  the \<open>admin.comments.noComments\<close> cell for an empty listing (no rows) and one row per
  comment otherwise; a throw in any row is a throw of the table.
\<close>

datatype row_button = ApproveButton | RejectButton | DeleteRowButton

record comment_row =
  row_key :: int
  row_author :: jstring
  row_content :: jstring
  row_badge :: "string \<times> string"
  row_buttons :: "row_button list"

definition render_row :: "(jstring \<Rightarrow> bool) \<Rightarrow> comment \<Rightarrow> render_error + comment_row" where
  "render_row validDate comment =
     (if \<not> validDate (created_at comment) then Inl RangeError
      else Inr
        \<lparr>row_key = id_c comment,
         row_author = author_name comment,
         row_content = content comment,
         row_badge =
           (if is_approved comment then ''published'' else ''draft'',
            if is_approved comment then ''admin.comments.approved''
            else ''admin.comments.pending''),
         row_buttons =
           (if \<not> is_approved comment then [ApproveButton] else [])
           @ (if is_approved comment then [RejectButton] else [])
           @ [DeleteRowButton]\<rparr>)"

definition comments_table ::
  "(jstring \<Rightarrow> bool) \<Rightarrow> comment list \<Rightarrow> render_error + comment_row list" where
  "comments_table validDate comments =
     (if length comments = 0 then Inr [] else collect (map (render_row validDate) comments))"

text \<open>
  A click on a button of the \<open>i\<close>-th row calls the function of \<open>api/client.ts\<close> named by
  the constructor with \<open>comment.id\<close>; deleting first asks for confirmation. There is
  nothing to click where the table has thrown or the button is not rendered.
\<close>

datatype client_call = approveComment int | rejectComment int | deleteComment int

definition click_row ::
  "(jstring \<Rightarrow> bool) \<Rightarrow> comment list \<Rightarrow> nat \<Rightarrow> row_button \<Rightarrow> bool \<Rightarrow> client_call option" where
  "click_row validDate comments i button confirmed =
     (case comments_table validDate comments of
        Inl e \<Rightarrow> None
      | Inr rows \<Rightarrow>
          if i < length rows \<and> button \<in> set (row_buttons (rows ! i)) then
            (case button of
               ApproveButton \<Rightarrow> Some (approveComment (row_key (rows ! i)))
             | RejectButton \<Rightarrow> Some (rejectComment (row_key (rows ! i)))
             | DeleteRowButton \<Rightarrow>
                 if confirmed then Some (deleteComment (row_key (rows ! i))) else None)
          else None)"

text \<open>
  \<open>Number.prototype.toString\<close> on a non-negative integer, and \<open>getAllComments\<close>: the
  entries appended to the \<open>URLSearchParams\<close> of the request, in order. \<open>status\<close> is
  optional, and \<open>if (status)\<close> also skips the empty string.
\<close>

fun toString :: "nat \<Rightarrow> string" where
  "toString n =
     (if n < 10 then [''0123456789'' ! n] else toString (n div 10) @ [''0123456789'' ! (n mod 10)])"

declare toString.simps [simp del]

definition getAllComments :: "nat \<Rightarrow> nat \<Rightarrow> string option \<Rightarrow> (string \<times> string) list" where
  "getAllComments page perPage status =
     [(''page'', toString page), (''per_page'', toString perPage)]
     @ (case status of
          None \<Rightarrow> []
        | Some s \<Rightarrow> if s \<noteq> [] then [(''status'', s)] else [])"

text \<open>
  The state of the comments tab: \<open>commentsPage\<close> (initially 1) and \<open>commentStatus\<close>
  (initially \<open>all\<close>). The select offers the three options of \<open>status_options\<close>, and a
  change event carries the value of the option chosen: \<open>SelectStatus i\<close> chooses the
  \<open>i\<close>-th one. The pagination buttons carry the number of comments the last fetch
  returned, from which \<open>commentsTotalPages\<close> is estimated; they are rendered when that
  estimate exceeds 1, and a disabled button takes no click.
\<close>

record comments_tab =
  commentsPage :: nat
  commentStatus :: string

definition commentsPerPage :: nat where
  "commentsPerPage = 10"

definition status_options :: "string list" where
  "status_options = [''all'', ''pending'', ''approved'']"

datatype tab_event = SelectStatus nat | Previous nat | Next nat

definition tab_opened :: comments_tab where
  "tab_opened = \<lparr>commentsPage = 1, commentStatus = ''all''\<rparr>"

definition commentsTotalPages :: "comments_tab \<Rightarrow> nat \<Rightarrow> nat" where
  "commentsTotalPages tab fetched =
     (if fetched = commentsPerPage then commentsPage tab + 1 else commentsPage tab)"

fun tab_dispatch :: "comments_tab \<Rightarrow> tab_event \<Rightarrow> comments_tab" where
  "tab_dispatch tab (SelectStatus i) =
     (if i < length status_options then tab\<lparr>commentStatus := status_options ! i\<rparr> else tab)"
| "tab_dispatch tab (Previous fetched) =
     (if commentsTotalPages tab fetched > 1 \<and> commentsPage tab \<noteq> 1 then
        tab\<lparr>commentsPage := max 1 (commentsPage tab - 1)\<rparr>
      else tab)"
| "tab_dispatch tab (Next fetched) =
     (if commentsTotalPages tab fetched > 1 \<and> commentsPage tab \<noteq> commentsTotalPages tab fetched then
        tab\<lparr>commentsPage := min (commentsTotalPages tab fetched) (commentsPage tab + 1)\<rparr>
      else tab)"

definition comments_query :: "comments_tab \<Rightarrow> (string \<times> string) list" where
  "comments_query tab =
     getAllComments (commentsPage tab) commentsPerPage (Some (commentStatus tab))"

section \<open>The rate limiter\<close>

text \<open>
  Modelled from the spec: \<open>tryConsume\<close> of section 4.1; the limiter runs on the server
  and its code is not among the sources. Per key it keeps the timestamps of the events it
  allowed, oldest first (a key with no timestamps is an evicted key). A call drops the
  timestamps older than \<open>now - window\<close>, then checks \<open>count < limit\<close>; if allowed it
  appends \<open>now\<close> and returns true, else it returns false. The spec makes pruning, check
  and append one atomic unit per key, so concurrent calls take effect one after the
  other in some order: a run is the list of calls in that order, each with the key and
  the clock reading it works with. The spec does not put the reading of the clock into
  the atomic unit, so of two overlapping calls the one that takes effect later may carry
  the older reading: the readings of a run need not be in order.
\<close>

type_synonym 'k limiter = "'k \<Rightarrow> int list"

definition tryConsume :: "'k \<Rightarrow> nat \<Rightarrow> int \<Rightarrow> int \<Rightarrow> 'k limiter \<Rightarrow> bool \<times> 'k limiter" where
  "tryConsume key limit window now store =
     (let kept = filter (\<lambda>t. \<not> t < now - window) (store key)
      in if length kept < limit then (True, store(key := kept @ [now]))
         else (False, store(key := kept)))"

fun allowed :: "nat \<Rightarrow> int \<Rightarrow> 'k limiter \<Rightarrow> ('k \<times> int) list \<Rightarrow> ('k \<times> int) list" where
  "allowed limit window store [] = []"
| "allowed limit window store ((key, now) # calls) =
     (let (ok, store') = tryConsume key limit window now store
      in (if ok then [(key, now)] else []) @ allowed limit window store' calls)"

definition in_window :: "'k \<Rightarrow> int \<Rightarrow> int \<Rightarrow> ('k \<times> int) list \<Rightarrow> nat" where
  "in_window key a window events =
     length (filter (\<lambda>(k, t). k = key \<and> a \<le> t \<and> t \<le> a + window) events)"

section \<open>Counting reaches every node\<close>

lemma foldl_add_sum:
  "foldl (\<lambda>count x. count + 1 + f x) (a::nat) xs = a + sum_list (map (\<lambda>x. 1 + f x) xs)"
  by (induction xs arbitrary: a) simp_all

lemma countAllComments_sum:
  "countAllComments cs = sum_list (map (\<lambda>c. 1 + countAllComments (replies_or_empty c)) cs)"
  by (subst countAllComments.simps) (simp only: foldl_add_sum add_0)

lemma countAllComments_upt:
  "countAllComments cs =
     (\<Sum>i\<leftarrow>[0..<length cs]. 1 + countAllComments (replies_or_empty (cs ! i)))"
proof -
  have "map (\<lambda>c. 1 + countAllComments (replies_or_empty c)) cs =
        map (\<lambda>i. 1 + countAllComments (replies_or_empty (cs ! i))) [0..<length cs]"
    by (rule nth_equalityI) simp_all
  then show ?thesis
    using countAllComments_sum [of cs] by simp
qed

lemma length_paths_upt:
  "length (paths cs) = (\<Sum>i\<leftarrow>[0..<length cs]. 1 + length (paths (replies_or_empty (cs ! i))))"
  by (subst paths.simps) (simp add: length_concat comp_def)

lemma count_is_length_paths: "countAllComments cs = length (paths cs)"
proof (induction cs rule: paths.induct)
  case (1 cs)
  have "map (\<lambda>i. 1 + countAllComments (replies_or_empty (cs ! i))) [0..<length cs] =
        map (\<lambda>i. 1 + length (paths (replies_or_empty (cs ! i)))) [0..<length cs]"
    using 1 by simp
  then show ?case
    by (simp only: countAllComments_upt [of cs] length_paths_upt [of cs])
qed

lemma in_paths_iff:
  "p \<in> set (paths cs) \<longleftrightarrow>
     (\<exists>i<length cs. p = [i] \<or> (\<exists>q. p = i # q \<and> q \<in> set (paths (replies_or_empty (cs ! i)))))"
proof -
  have "set (paths cs) =
      (\<Union>i\<in>{0..<length cs}. set ([i] # map ((#) i) (paths (replies_or_empty (cs ! i)))))"
    by (subst paths.simps) simp
  then have "p \<in> set (paths cs) \<longleftrightarrow>
      (\<exists>i<length cs. p \<in> set ([i] # map ((#) i) (paths (replies_or_empty (cs ! i)))))"
    by (simp add: Bex_def)
  also have "\<dots> \<longleftrightarrow>
      (\<exists>i<length cs. p = [i] \<or> (\<exists>q. p = i # q \<and> q \<in> set (paths (replies_or_empty (cs ! i)))))"
    by (simp add: image_iff Bex_def conj_commute)
  finally show ?thesis .
qed

lemma Nil_notin_paths: "[] \<notin> set (paths cs)"
  by (simp add: in_paths_iff [of "[]"])

lemma paths_node_at: "p \<in> set (paths cs) \<longleftrightarrow> node_at cs p \<noteq> None"
proof (induction cs p rule: node_at.induct)
  case (1 cs)
  then show ?case by (simp add: Nil_notin_paths)
next
  case (2 cs i)
  then show ?case by (simp add: in_paths_iff [of "[i]"] Nil_notin_paths)
next
  case (3 cs i j p)
  then show ?case by (simp add: in_paths_iff [of "i # j # p"])
qed

lemma distinct_concat_upt:
  assumes "\<And>i. i < n \<Longrightarrow> distinct (f i)"
    and "\<And>i j. i < j \<Longrightarrow> j < n \<Longrightarrow> set (f i) \<inter> set (f j) = {}"
  shows "distinct (concat (map f [0..<n]))"
  using assms
proof (induction n)
  case 0
  then show ?case by simp
next
  case (Suc n)
  have "distinct (concat (map f [0..<n]))"
    using Suc by simp
  moreover have "distinct (f n)"
    using Suc.prems(1) by simp
  moreover have "set (f i) \<inter> set (f n) = {}" if "i < n" for i
    using that Suc.prems(2) [of i n] by simp
  then have "set (concat (map f [0..<n])) \<inter> set (f n) = {}"
    by (fastforce simp: disjoint_iff)
  ultimately show ?case by simp
qed

lemma distinct_paths: "distinct (paths cs)"
proof (induction cs rule: paths.induct)
  case (1 cs)
  let ?f = "\<lambda>i. [i] # map ((#) i) (paths (replies_or_empty (cs ! i)))"
  have hd: "hd p = i" if "p \<in> set (?f i)" for p i
    using that by auto
  have "distinct (?f i)" if "i < length cs" for i
    using that 1 [of i] by (auto simp: distinct_map Nil_notin_paths)
  moreover have "set (?f i) \<inter> set (?f j) = {}" if "i < j" for i j
  proof (rule ccontr)
    assume "set (?f i) \<inter> set (?f j) \<noteq> {}"
    then obtain p where "p \<in> set (?f i)" "p \<in> set (?f j)" by blast
    then have "i = j" using hd [of p i] hd [of p j] by simp
    with that show False by simp
  qed
  ultimately have "distinct (concat (map ?f [0..<length cs]))"
    by (rule distinct_concat_upt)
  then show ?case
    by (subst paths.simps)
qed

text \<open>
  C1. Applied to any comment tree, \<open>countAllComments\<close> returns the number of nodes of the
  tree, that is the number of positions holding a comment, whatever their depth: every
  node is counted exactly once. In particular a tree whose comments stand at depths 0, 1,
  1 and 2 is counted as 4.
\<close>

theorem countAllComments_counts_every_node:
  "countAllComments cs = card {p. node_at cs p \<noteq> None}
   \<and> (sort (map depth_of (paths cs)) = [0, 1, 1, 2] \<longrightarrow> countAllComments cs = 4)"
proof
  have "{p. node_at cs p \<noteq> None} = set (paths cs)"
    by (auto simp: paths_node_at)
  then show "countAllComments cs = card {p. node_at cs p \<noteq> None}"
    by (simp add: count_is_length_paths distinct_card [OF distinct_paths])
next
  show "sort (map depth_of (paths cs)) = [0, 1, 1, 2] \<longrightarrow> countAllComments cs = 4"
  proof
    assume "sort (map depth_of (paths cs)) = [0, 1, 1, 2]"
    then have "length (sort (map depth_of (paths cs))) = 4"
      by simp
    then show "countAllComments cs = 4"
      by (simp add: count_is_length_paths)
  qed
qed

lemma countAllComments_Nil: "countAllComments [] = 0"
  by (simp add: countAllComments_sum [of "[]"])

lemma countAllComments_Cons:
  "countAllComments (c # cs) = 1 + countAllComments (replies_or_empty c) + countAllComments cs"
  using countAllComments_sum [of "c # cs"] countAllComments_sum [of cs] by simp

lemma paths_Nil: "paths [] = []"
  by (subst paths.simps) simp

lemma paths_Cons:
  "paths (c # cs) =
     ([0] # map ((#) 0) (paths (replies_or_empty c))) @ map (\<lambda>p. Suc (hd p) # tl p) (paths cs)"
proof -
  have "paths (c # cs) =
      concat (map (\<lambda>i. [i] # map ((#) i) (paths (replies_or_empty ((c # cs) ! i))))
        [0..<Suc (length cs)])"
    by (subst paths.simps) simp
  also have "[0..<Suc (length cs)] = 0 # map Suc [0..<length cs]"
    by (simp add: upt_conv_Cons map_Suc_upt del: upt_Suc)
  also have "concat (map (\<lambda>i. [i] # map ((#) i) (paths (replies_or_empty ((c # cs) ! i))))
        (0 # map Suc [0..<length cs])) =
      ([0] # map ((#) 0) (paths (replies_or_empty c)))
      @ map (\<lambda>p. Suc (hd p) # tl p)
          (concat (map (\<lambda>i. [i] # map ((#) i) (paths (replies_or_empty (cs ! i))))
             [0..<length cs]))"
    by (simp add: map_concat comp_def)
  also have "concat (map (\<lambda>i. [i] # map ((#) i) (paths (replies_or_empty (cs ! i))))
        [0..<length cs]) = paths cs"
    by (rule paths.simps [symmetric])
  finally show ?thesis .
qed

lemma paths_tree_0112: "paths tree_0112 = [[0], [0, 0], [0, 1], [0, 1, 0]]"
  by (simp add: tree_0112_def node_def leaf_def paths_Cons paths_Nil replies_or_empty_def)

text \<open>The example of the spec: one root, two replies, one reply to the second.\<close>

theorem countAllComments_counts_every_node_witness:
  "sort (map depth_of (paths tree_0112)) = [0, 1, 1, 2] \<and> countAllComments tree_0112 = 4
   \<and> card {p. node_at tree_0112 p \<noteq> None} = 4"
proof -
  have h: "sort (map depth_of (paths tree_0112)) = [0, 1, 1, 2]"
    by (simp add: paths_tree_0112 depth_of_def)
  with countAllComments_counts_every_node [of tree_0112] show ?thesis
    by simp
qed

section \<open>The outcomes of a submission\<close>

lemma trim_empty_iff: "trim s = [] \<longleftrightarrow> blank s"
proof
  assume "trim s = []"
  then have "\<forall>x \<in> set (dropWhile isWhiteSpace s). isWhiteSpace x"
    by (simp add: trim_def dropWhile_eq_Nil_conv)
  then have "dropWhile isWhiteSpace s = []"
    using hd_dropWhile [of isWhiteSpace s] hd_in_set [of "dropWhile isWhiteSpace s"] by blast
  then show "blank s"
    by (simp add: blank_def dropWhile_eq_Nil_conv list_all_iff)
next
  assume "blank s"
  then show "trim s = []"
    by (auto simp: trim_def blank_def list_all_iff dest: set_dropWhileD)
qed

lemma handleSubmit_blank:
  "blank (name st) \<or> blank (content_f st) \<Longrightarrow>
     handleSubmit throws props st response
       = (st\<lparr>error := Some ''comments.validationError''\<rparr>, [])"
  by (auto simp: handleSubmit_def trim_empty_iff)

lemma handleSubmit_rejected:
  "\<not> blank (name st) \<Longrightarrow> \<not> blank (content_f st) \<Longrightarrow>
     error (fst (handleSubmit throws props st (Inl e))) = Some ''comments.error''"
  by (simp add: handleSubmit_def trim_empty_iff Let_def)

text \<open>
  C6. A submission whose author name or content is missing or blank is turned down by
  the handler itself, before any effect: no request is made, nothing is stored, no toast
  is shown; only the error of the form is set, to the validation message, which is not
  the message a submission rejected by the server leaves.
\<close>

theorem blank_field_rejected_before_any_effect:
  assumes "blank (name st) \<or> blank (content_f st)"
  shows "handleSubmit throws props st response
      = (st\<lparr>error := Some ''comments.validationError''\<rparr>, [])
    \<and> (\<not> blank (name st') \<and> \<not> blank (content_f st') \<longrightarrow>
         error (fst (handleSubmit throws props st response))
           \<noteq> error (fst (handleSubmit throws' props' st' (Inl e))))"
  using assms by (simp add: handleSubmit_blank handleSubmit_rejected)

lemma isWhiteSpace_examples:
  "isWhiteSpace 32" "isWhiteSpace 9" "isWhiteSpace 160" "isWhiteSpace 10"
  "\<not> isWhiteSpace 65" "\<not> isWhiteSpace 104" "\<not> isWhiteSpace 105" "\<not> isWhiteSpace 110"
  by (simp_all add: isWhiteSpace_def)

theorem blank_field_rejected_before_any_effect_witness:
  "blank (name blank_name_form)
   \<and> \<not> blank (name filled_form) \<and> \<not> blank (content_f filled_form)
   \<and> handleSubmit storage_throws (root_props [112]) blank_name_form
        (Inr (stored 16 True) :: reject_reason + comment)
      = (blank_name_form\<lparr>error := Some ''comments.validationError''\<rparr>, [])
   \<and> error (fst (handleSubmit storage_throws (root_props [112]) blank_name_form
        (Inr (stored 16 True) :: reject_reason + comment)))
      \<noteq> error (fst (handleSubmit nothing_throws (root_props [112]) filled_form (Inl RateLimited)))"
proof -
  have b: "blank (name blank_name_form)"
    by (simp add: blank_name_form_def filled_form_def blank_def isWhiteSpace_examples)
  have n: "\<not> blank (name filled_form)" "\<not> blank (content_f filled_form)"
    by (simp_all add: filled_form_def blank_def isWhiteSpace_examples)
  from b have "blank (name blank_name_form) \<or> blank (content_f blank_name_form)"
    by simp
  from blank_field_rejected_before_any_effect [OF this, of storage_throws "root_props [112]"
      "Inr (stored 16 True) :: reject_reason + comment" filled_form nothing_throws
      "root_props [112]" RateLimited]
    b n show ?thesis
    by blast
qed



lemma filled_form_not_blank:
  "\<not> blank (name filled_form)" "\<not> blank (content_f filled_form)"
  by (simp_all add: filled_form_def blank_def isWhiteSpace_examples)

lemma trim_examples:
  "trim [32, 65, 110, 110] = [65, 110, 110]" "trim [104, 105, 10] = [104, 105]" "trim [] = []"
  by (simp_all add: trim_def isWhiteSpace_examples)




text \<open>
  C8. Whatever the rejected request carries, the reason of the Spam Gate included, the
  handler leaves the same outcome: the same form state and the same effects for the same
  form, and for any two submitted forms the one message \<open>comments.error\<close> and no toast.
\<close>

theorem rejected_submissions_look_alike:
  "handleSubmit throws props st (Inl e1) = handleSubmit throws props st (Inl e2)
   \<and> (\<not> blank (name st) \<and> \<not> blank (content_f st) \<and> \<not> blank (name st') \<and> \<not> blank (content_f st') \<longrightarrow>
        error (fst (handleSubmit throws props st (Inl e1))) = Some ''comments.error''
        \<and> error (fst (handleSubmit throws' props' st' (Inl e2))) = Some ''comments.error''
        \<and> filter is_toast (snd (handleSubmit throws props st (Inl e1))) = []
        \<and> filter is_toast (snd (handleSubmit throws' props' st' (Inl e2))) = [])"
  by (simp add: handleSubmit_def trim_empty_iff Let_def)

theorem rejected_submissions_look_alike_witness:
  "\<not> blank (name filled_form) \<and> \<not> blank (content_f filled_form)
   \<and> handleSubmit nothing_throws (root_props [112]) filled_form (Inl Honeypot)
       = handleSubmit nothing_throws (root_props [112]) filled_form (Inl RateLimited)
   \<and> error (fst (handleSubmit nothing_throws (root_props [112]) filled_form (Inl Honeypot)))
       = Some ''comments.error''
   \<and> error (fst (handleSubmit storage_throws (root_props [113]) filled_form (Inl TooFast)))
       = Some ''comments.error''"
proof -
  note n = filled_form_not_blank
  from rejected_submissions_look_alike [of nothing_throws "root_props [112]" filled_form
      Honeypot RateLimited filled_form storage_throws "root_props [113]"]
    rejected_submissions_look_alike [of nothing_throws "root_props [112]" filled_form
      Honeypot TooFast filled_form storage_throws "root_props [113]"] n
  show ?thesis by blast
qed

section \<open>The rendered thread keeps the tree\<close>

lemma collect_Inr: "collect xs = Inr ys \<longleftrightarrow> xs = map Inr ys"
proof (induction xs arbitrary: ys)
  case Nil
  then show ?case by auto
next
  case (Cons x xs)
  show ?case
  proof (cases x)
    case (Inl e)
    then show ?thesis by auto
  next
    case (Inr a)
    show ?thesis
    proof (cases "collect xs")
      case (Inl e)
      with Cons [of "tl ys"] Inr show ?thesis
        by (cases ys) auto
    next
      case inr: (Inr as)
      with Cons [of as] Cons [of "tl ys"] Inr show ?thesis
        by (cases ys) auto
    qed
  qed
qed

lemma collect_upt_Inr:
  "collect (map f [0..<n]) = Inr es \<longleftrightarrow> length es = n \<and> (\<forall>i<n. f i = Inr (es ! i))"
proof -
  have "map f [0..<n] = map Inr es \<longleftrightarrow> length es = n \<and> (\<forall>i<n. f i = Inr (es ! i))"
    by (auto simp: list_eq_iff_nth_eq)
  then show ?thesis
    by (simp add: collect_Inr)
qed

lemma collect_upt_total:
  assumes "\<And>i. i < n \<Longrightarrow> \<exists>e. f i = Inr e"
  shows "\<exists>es. collect (map f [0..<n]) = Inr es"
proof -
  have "f i = Inr (projr (f i))" if "i < n" for i
    using assms [OF that] by auto
  then have "collect (map f [0..<n]) = Inr (map (\<lambda>i. projr (f i)) [0..<n])"
    by (simp add: collect_upt_Inr)
  then show ?thesis ..
qed

lemma CommentThread_Inr:
  "CommentThread V A S g path c d = Inr e \<longleftrightarrow>
     V (created_at c) \<and>
     (\<exists>es. collect (map (\<lambda>i. CommentThread V A S g (path @ [i]) (replies_or_empty c ! i) (d + 1))
              [0..<length (replies_or_empty c)]) = Inr es
        \<and> e = comment_el A S g path c d (if es = [] then None else Some es))"
proof (cases "replies c")
  case None
  then show ?thesis
    by (subst CommentThread.simps) (auto simp: replies_or_empty_def)
next
  case (Some rs)
  show ?thesis
  proof (cases "rs = []")
    case True
    with Some show ?thesis
      by (subst CommentThread.simps) (auto simp: replies_or_empty_def)
  next
    case False
    have ne: "es \<noteq> []"
      if "collect (map (\<lambda>i. CommentThread V A S g (path @ [i]) (rs ! i) (d + 1))
            [0..<length rs]) = Inr es" for es
      using that False by (auto simp: collect_upt_Inr)
    show ?thesis
      using Some False ne
      by (subst CommentThread.simps) (auto simp: replies_or_empty_def split: sum.splits)
  qed
qed

lemma comment_el_sel:
  "el_key (comment_el A S g path c d block) = id_c c"
  "el_comment_reply (comment_el A S g path c d block) = (d > 0)"
  "el_author (comment_el A S g path c d block) = author_name c"
  "el_body (comment_el A S g path c d block) = content c"
  "el_actions (comment_el A S g path c d block) =
     (if d < maxDepth then Some (ReplyButton # (if A then [DeleteButton] else [])) else None)"
  "el_form (comment_el A S g path c d block) =
     (if S path then
        Some \<lparr>postSlug = g, parentId = Some (id_c c), onCancel = True, isReply = True\<rparr>
      else None)"
  "el_replies (comment_el A S g path c d block) = block"
  by (simp_all add: comment_el_def)

lemma el_at_collect:
  assumes "collect (map (\<lambda>i. CommentThread V A S g (pre @ [i]) (cs ! i) d) [0..<length cs]) = Inr es"
  shows "case node_at cs p of
           None \<Rightarrow> el_at es p = None
         | Some c \<Rightarrow> \<exists>e. el_at es p = Some e
                       \<and> CommentThread V A S g (pre @ p) c (d + depth_of p) = Inr e"
  using assms
proof (induction cs p arbitrary: pre d es rule: node_at.induct)
  case (1 cs)
  then show ?case by simp
next
  case (2 cs i)
  then show ?case
    by (auto simp: collect_upt_Inr depth_of_def)
next
  case (3 cs i j p)
  from "3.prems" have len: "length es = length cs"
    and at: "\<And>k. k < length cs \<Longrightarrow> CommentThread V A S g (pre @ [k]) (cs ! k) d = Inr (es ! k)"
    by (simp_all add: collect_upt_Inr)
  show ?case
  proof (cases "i < length cs")
    case False
    with len show ?thesis by simp
  next
    case True
    from at [OF True] obtain es' where
      es': "collect (map (\<lambda>k. CommentThread V A S g ((pre @ [i]) @ [k])
                (replies_or_empty (cs ! i) ! k) (d + 1))
              [0..<length (replies_or_empty (cs ! i))]) = Inr es'"
      and e: "es ! i = comment_el A S g (pre @ [i]) (cs ! i) d (if es' = [] then None else Some es')"
      by (auto simp: CommentThread_Inr)
    have "el_replies_or_empty (es ! i) = es'"
      by (simp add: e el_replies_or_empty_def comment_el_sel)
    with "3.IH" [OF True es'] True len show ?thesis
      by (auto simp: depth_of_def split: option.splits)
  qed
qed

lemma dates_parse_iff:
  "dates_parse V cs \<longleftrightarrow> (\<forall>p c. node_at cs p = Some c \<longrightarrow> V (created_at c))"
proof -
  have "dates_parse V cs \<longleftrightarrow>
      (\<forall>p. node_at cs p \<noteq> None \<longrightarrow>
        (case node_at cs p of None \<Rightarrow> True | Some c \<Rightarrow> V (created_at c)))"
    by (auto simp: dates_parse_def list_all_iff paths_node_at)
  also have "\<dots> \<longleftrightarrow> (\<forall>p c. node_at cs p = Some c \<longrightarrow> V (created_at c))"
    by (auto split: option.splits)
  finally show ?thesis .
qed

lemma dates_parse_children:
  assumes "dates_parse V cs" and "i < length cs"
  shows "V (created_at (cs ! i))" and "dates_parse V (replies_or_empty (cs ! i))"
proof -
  from assms have "node_at cs [i] = Some (cs ! i)"
    by simp
  with assms(1) show "V (created_at (cs ! i))"
    unfolding dates_parse_iff by blast
  show "dates_parse V (replies_or_empty (cs ! i))"
    unfolding dates_parse_iff
  proof (intro allI impI)
    fix p c
    assume n: "node_at (replies_or_empty (cs ! i)) p = Some c"
    then obtain j q where "p = j # q"
      by (cases p) auto
    with n assms(2) have "node_at cs (i # p) = Some c"
      by simp
    with assms(1) show "V (created_at c)"
      unfolding dates_parse_iff by blast
  qed
qed

lemma collect_renders:
  "dates_parse V cs \<Longrightarrow>
     \<exists>es. collect (map (\<lambda>i. CommentThread V A S g (pre @ [i]) (cs ! i) d) [0..<length cs]) = Inr es"
proof (induction cs arbitrary: pre d rule: paths.induct)
  case (1 cs)
  show ?case
  proof (rule collect_upt_total)
    fix i
    assume i: "i < length cs"
    from dates_parse_children [OF "1.prems" i]
    have v: "V (created_at (cs ! i))" and r: "dates_parse V (replies_or_empty (cs ! i))"
      by simp_all
    from i have "i \<in> set [0..<length cs]"
      by simp
    from "1.IH" [OF this r, of "pre @ [i]" "d + 1"] obtain es where
      "collect (map (\<lambda>k. CommentThread V A S g ((pre @ [i]) @ [k])
          (replies_or_empty (cs ! i) ! k) (d + 1))
        [0..<length (replies_or_empty (cs ! i))]) = Inr es"
      by blast
    with v show "\<exists>e. CommentThread V A S g (pre @ [i]) (cs ! i) d = Inr e"
      by (auto simp: CommentThread_Inr)
  qed
qed

lemma threads_renders_iff:
  "(\<exists>es. threads V A S g cs = Inr es) \<longleftrightarrow> dates_parse V cs"
proof
  assume "\<exists>es. threads V A S g cs = Inr es"
  then obtain es where es: "collect (map (\<lambda>i. CommentThread V A S g ([] @ [i]) (cs ! i) 0)
      [0..<length cs]) = Inr es"
    by (auto simp: threads_def)
  show "dates_parse V cs"
    unfolding dates_parse_iff
  proof (intro allI impI)
    fix p c
    assume "node_at cs p = Some c"
    with el_at_collect [OF es, of p] show "V (created_at c)"
      by (auto simp: CommentThread_Inr)
  qed
next
  assume "dates_parse V cs"
  from collect_renders [OF this, of A S g "[]" 0] show "\<exists>es. threads V A S g cs = Inr es"
    by (simp add: threads_def)
qed

lemma threads_throws: "\<not> dates_parse V cs \<Longrightarrow> threads V A S g cs = Inl RangeError"
  using threads_renders_iff [of V A S g cs]
  by (cases "threads V A S g cs") (auto intro: render_error.exhaust)

lemma rendered_at_Some:
  assumes "rendered_at V A g cs st p = Some e"
  shows "\<exists>c block. node_at cs p = Some c
    \<and> CommentThread V A (cells st) g p c (depth_of p) = Inr e
    \<and> e = comment_el A (cells st) g p c (depth_of p) block"
proof -
  from assms obtain es where "threads V A (cells st) g cs = Inr es" and el: "el_at es p = Some e"
    by (auto simp: rendered_at_def split: sum.splits)
  then have "collect (map (\<lambda>i. CommentThread V A (cells st) g ([] @ [i]) (cs ! i) 0)
      [0..<length cs]) = Inr es"
    by (simp add: threads_def)
  from el_at_collect [OF this, of p] el obtain c where
    "node_at cs p = Some c" "CommentThread V A (cells st) g p c (depth_of p) = Inr e"
    by (auto split: option.splits)
  then show ?thesis
    by (auto simp: CommentThread_Inr)
qed

lemma rendered_at_node:
  assumes "dates_parse V cs"
  shows "map_option (\<lambda>e. (el_key e, el_author e, el_body e, el_comment_reply e))
           (rendered_at V A g cs st p)
         = map_option (\<lambda>c. (id_c c, author_name c, content c, depth_of p > 0)) (node_at cs p)"
proof -
  from assms obtain es where t: "threads V A (cells st) g cs = Inr es"
    using threads_renders_iff by blast
  then have "collect (map (\<lambda>i. CommentThread V A (cells st) g ([] @ [i]) (cs ! i) 0)
      [0..<length cs]) = Inr es"
    by (simp add: threads_def)
  from el_at_collect [OF this, of p] show ?thesis
    by (auto simp: rendered_at_def t CommentThread_Inr comment_el_sel split: option.splits)
qed

lemma rendered_at_eq:
  assumes "dates_parse V cs" and "node_at cs p = Some c"
  shows "rendered_at V A g cs st p =
    Some (comment_el A (cells st) g p c (depth_of p)
      (el_replies (projr (CommentThread V A (cells st) g p c (depth_of p)))))"
proof -
  from assms(1) obtain es where t: "threads V A (cells st) g cs = Inr es"
    using threads_renders_iff by blast
  then have "collect (map (\<lambda>i. CommentThread V A (cells st) g ([] @ [i]) (cs ! i) 0)
      [0..<length cs]) = Inr es"
    by (simp add: threads_def)
  from el_at_collect [OF this, of p] assms(2) obtain e where
    e: "el_at es p = Some e" "CommentThread V A (cells st) g p c (depth_of p) = Inr e"
    by auto
  then obtain block where "e = comment_el A (cells st) g p c (depth_of p) block"
    by (auto simp: CommentThread_Inr)
  with e show ?thesis
    by (simp add: rendered_at_def t comment_el_sel)
qed

lemma offered_comment_el:
  "offered (comment_el A S g p c d block) =
     (if d < maxDepth then (if A then {ReplyButton, DeleteButton} else {ReplyButton}) else {})"
  by (simp add: offered_def comment_el_sel)

lemma set_completed: "set (completed throws calls) \<subseteq> set calls"
  by (auto simp: completed_def dest: set_takeWhileD)

lemma target_writes: "eff \<in> set (writes st) \<Longrightarrow> target eff = None"
  by (auto simp: writes_def split: if_splits)

lemma target_signals: "eff \<in> set (signals props c) \<Longrightarrow> target eff = None"
  by (auto simp: signals_def split: if_splits)

lemma handleSubmit_target:
  assumes "eff \<in> set (snd (handleSubmit throws props form response))" and "target eff = Some cid"
  shows "parentId props = Some cid"
proof (cases response)
  case (Inl e)
  with assms show ?thesis
    by (auto simp: handleSubmit_def Let_def split: if_splits)
next
  case (Inr c)
  have "target x = None" if "x \<in> set (completed throws (writes form))" for x
    using that set_completed [of throws "writes form"] target_writes by blast
  moreover have "target x = None" if "x \<in> set (completed throws (signals props c))" for x
    using that set_completed [of throws "signals props c"] target_signals by blast
  moreover have "target x = None" if "x \<in> set (writes form)" for x
    using that target_writes by blast
  ultimately show ?thesis
    using assms Inr
    by (auto simp: handleSubmit_def Let_def split: if_splits)
qed

lemma at_depth_belowI:
  "node_at cs p = Some c \<Longrightarrow> depth_of p < d \<Longrightarrow> at_depth_below cs d (id_c c)"
  unfolding at_depth_below_def using paths_node_at [of p cs] by force

lemma inv_mounted: "thread_inv cs mounted"
  by (simp add: thread_inv_def mounted_def)

lemma inv_dispatch:
  assumes "thread_inv cs st"
  shows "thread_inv cs (dispatch V throws A g cs st ev)"
proof (cases ev)
  case (ClickReply p)
  show ?thesis
  proof (cases "rendered_at V A g cs st p")
    case None
    with ClickReply assms show ?thesis by simp
  next
    case (Some e)
    from rendered_at_Some [OF Some] obtain c block where c: "node_at cs p = Some c"
      and e: "e = comment_el A (cells st) g p c (depth_of p) block"
      by blast
    show ?thesis
      using assms ClickReply Some c
      by (auto simp: thread_inv_def e comment_el_sel split: if_splits)
  qed
next
  case (ClickCancel p)
  with assms show ?thesis
    by (auto simp: thread_inv_def split: option.splits)
next
  case (ClickDelete p confirmed resolved)
  show ?thesis
  proof (cases "rendered_at V A g cs st p")
    case None
    with ClickDelete assms show ?thesis by simp
  next
    case (Some e)
    from rendered_at_Some [OF Some] obtain c block where c: "node_at cs p = Some c"
      and e: "e = comment_el A (cells st) g p c (depth_of p) block"
      by blast
    have "target x = None" if "x \<in> set (completed throws [ShowToast ''comments.deleteError'' Error])" for x
      using that set_completed [of throws "[ShowToast ''comments.deleteError'' Error]"] by auto
    then show ?thesis
      using assms ClickDelete Some c at_depth_belowI [OF c, of maxDepth]
      by (auto simp: thread_inv_def e comment_el_sel split: if_splits)
  qed
next
  case (SubmitReply p form response)
  show ?thesis
  proof (cases "rendered_at V A g cs st p")
    case None
    with SubmitReply assms show ?thesis by simp
  next
    case (Some e)
    from rendered_at_Some [OF Some] obtain c block where c: "node_at cs p = Some c"
      and e: "e = comment_el A (cells st) g p c (depth_of p) block"
      by blast
    show ?thesis
    proof (cases "cells st p")
      case False
      with SubmitReply Some assms show ?thesis
        by (simp add: e comment_el_sel)
    next
      case True
      then have d: "depth_of p < maxDepth"
        using assms by (simp add: thread_inv_def)
      let ?props = "\<lparr>postSlug = g, parentId = Some (id_c c), onCancel = True, isReply = True\<rparr>"
      have t: "at_depth_below cs maxDepth cid"
        if "eff \<in> set (snd (handleSubmit throws ?props form response))" "target eff = Some cid"
        for eff cid
        using handleSubmit_target [OF that] at_depth_belowI [OF c d] by simp
      have f: "el_form e = Some ?props"
        using True by (simp add: e comment_el_sel)
      show ?thesis
        using assms SubmitReply Some f t
        by (auto simp: thread_inv_def Let_def)
    qed
  qed
next
  case (SubmitRoot form response)
  show ?thesis
  proof (cases "Comments V A (cells st) g cs")
    case (Inl x)
    with SubmitRoot assms show ?thesis by simp
  next
    case (Inr sec)
    then have r: "root_form sec = root_props g"
      by (auto simp: Comments_def split: if_splits sum.splits)
    have "target eff \<noteq> Some cid"
      if "eff \<in> set (snd (handleSubmit throws (root_props g) form response))"
      for eff cid
      using handleSubmit_target [OF that, of cid] by (auto simp: root_props_def)
    with assms SubmitRoot Inr r show ?thesis
      by (auto simp: thread_inv_def)
  qed
qed

lemma inv_foldl:
  "thread_inv cs st \<Longrightarrow> thread_inv cs (foldl (dispatch V throws A g cs) st evs)"
  by (induction evs arbitrary: st) (simp_all add: inv_dispatch)

lemma inv_run: "thread_inv cs (run V throws A g cs evs)"
  unfolding run_def by (rule inv_foldl [OF inv_mounted])

text \<open>The chain of six comments, evaluated at its three deepest positions.\<close>

lemma isoDate_date_2024: "isoDate date_2024"
  by (simp add: isoDate_def date_2024_def digits_def field_def)

lemma paths_chain6:
  "paths chain6 =
     [[0], [0, 0], [0, 0, 0], [0, 0, 0, 0], [0, 0, 0, 0, 0], [0, 0, 0, 0, 0, 0]]"
  by (simp add: chain6_def node_def leaf_def paths_Cons paths_Nil replies_or_empty_def)

lemma dates_parse_chain6: "dates_parse isoDate chain6"
  unfolding dates_parse_def paths_chain6
  by (simp add: chain6_def node_def leaf_def replies_or_empty_def isoDate_date_2024)

lemma node_at_chain6: "node_at chain6 [0, 0, 0, 0, 0, 0] = Some (leaf 15 (Some 14))"
  by (simp add: chain6_def node_def replies_or_empty_def)

lemma node_at_chain6_3:
  "node_at chain6 [0, 0, 0, 0] =
     Some (node 13 (Some 12) [node 14 (Some 13) [leaf 15 (Some 14)]])"
  by (simp add: chain6_def node_def replies_or_empty_def)

lemma node_at_chain6_4:
  "node_at chain6 [0, 0, 0, 0, 0] = Some (node 14 (Some 13) [leaf 15 (Some 14)])"
  by (simp add: chain6_def node_def replies_or_empty_def)

lemma chain6_depth4:
  assumes "depth_of p = 4" and "node_at chain6 p = Some c"
  shows "id_c c = 14"
proof -
  from assms(1) have "length p = 5"
    by (simp add: depth_of_def)
  then obtain i1 i2 i3 i4 i5 where p: "p = [i1, i2, i3, i4, i5]"
    by (auto simp: length_Suc_conv eval_nat_numeral)
  from assms(2) show ?thesis
    unfolding p
    by (auto simp: chain6_def node_def leaf_def replies_or_empty_def split: if_splits)
qed

lemmas rendered_at_chain6_3 = rendered_at_eq [OF dates_parse_chain6 node_at_chain6_3]

lemmas rendered_at_chain6_4 = rendered_at_eq [OF dates_parse_chain6 node_at_chain6_4]

lemma run_chain6:
  "issued (run isoDate nothing_throws True [112] chain6 chain6_session) =
   [CreateComment [112]
      \<lparr>author_name_cc = [65, 110, 110], author_email_cc = None, content_cc = [104, 105],
       parent_id_cc = Some 13, honeypot_cc = [], form_timestamp_cc = 1700000000\<rparr>,
    SetItem ''comment_author_name'' [65, 110, 110],
    ShowToast ''comments.commentAdded'' Success, OnCommentAdded, OnCancel,
    DeleteComment 13, OnCommentAdded]"
  by (simp add: run_def mounted_def chain6_session_def rendered_at_chain6_3 rendered_at_chain6_4
      comment_el_sel maxDepth_def depth_of_def handleSubmit_def trim_examples Let_def
      writes_def signals_def thrown_def completed_def nothing_throws_def leaf_def node_def
      STORAGE_KEY_NAME_def filled_form_def)

text \<open>A thread of one comment whose \<open>created_at\<close> is the empty string.\<close>

lemma dates_parse_undated: "\<not> dates_parse isoDate [Comment 21 1 None [65] None [104, 105] True None [] None]"
  by (simp add: dates_parse_def paths_Cons paths_Nil isoDate_def replies_or_empty_def)

text \<open>
  C2, as amended. For every comment tree rendered to readers in which every date parses,
  every comment is shown, however deep it is nested, and in the element tree it is shown
  at its own position: the element at a position is the one of the comment the tree has
  there (its key, author and body), a position without a comment has no element, and the
  class \<open>comment-reply\<close> marks exactly the positions below the roots. Nothing is dropped
  and nothing is moved up to depth 4: \<open>maxDepth\<close> gates the actions and never the
  nesting. In a tree with a date that does not parse the render throws, and no comment is
  shown.
\<close>

theorem thread_keeps_every_comment_at_its_depth:
  "(dates_parse validDate comments \<longrightarrow>
      map_option (\<lambda>e. (el_key e, el_author e, el_body e, el_comment_reply e))
        (rendered_at validDate isAdmin slug comments st p)
      = map_option (\<lambda>c. (id_c c, author_name c, content c, depth_of p > 0)) (node_at comments p))
   \<and> (\<not> dates_parse validDate comments \<longrightarrow>
        threads validDate isAdmin (cells st) slug comments = Inl RangeError
        \<and> rendered_at validDate isAdmin slug comments st p = None)"
  using rendered_at_node [of validDate comments isAdmin slug st p]
    threads_throws [of validDate comments isAdmin "cells st" slug]
  by (auto simp: rendered_at_def)

text \<open>
  The deepest comment of the chain, shown at the end of six nested threads; and a comment
  whose date is the empty string, with which the thread throws.
\<close>

theorem thread_keeps_every_comment_at_its_depth_witness:
  "dates_parse isoDate chain6
   \<and> map_option (\<lambda>e. (el_key e, el_author e, el_body e, el_comment_reply e))
        (rendered_at isoDate False [112] chain6 mounted [0, 0, 0, 0, 0, 0])
      = Some (15, [65], [104, 105], True)
   \<and> \<not> dates_parse isoDate [Comment 21 1 None [65] None [104, 105] True None [] None]
   \<and> threads isoDate False (cells mounted) [112]
        [Comment 21 1 None [65] None [104, 105] True None [] None] = Inl RangeError
   \<and> rendered_at isoDate False [112]
        [Comment 21 1 None [65] None [104, 105] True None [] None] mounted [0] = None"
proof -
  from thread_keeps_every_comment_at_its_depth
    [of isoDate chain6 False "[112]" mounted "[0, 0, 0, 0, 0, 0]"] dates_parse_chain6
  have "map_option (\<lambda>e. (el_key e, el_author e, el_body e, el_comment_reply e))
        (rendered_at isoDate False [112] chain6 mounted [0, 0, 0, 0, 0, 0])
      = map_option (\<lambda>c. (id_c c, author_name c, content c, depth_of [0, 0, 0, 0, 0, 0] > 0))
          (node_at chain6 [0, 0, 0, 0, 0, 0])"
    by blast
  then have a: "map_option (\<lambda>e. (el_key e, el_author e, el_body e, el_comment_reply e))
        (rendered_at isoDate False [112] chain6 mounted [0, 0, 0, 0, 0, 0])
      = Some (15, [65], [104, 105], True)"
    unfolding node_at_chain6 by (simp add: leaf_def depth_of_def)
  let ?cs = "[Comment 21 1 None [65] None [104, 105] True None [] None]"
  have u: "\<not> dates_parse isoDate ?cs"
    by (rule dates_parse_undated)
  from thread_keeps_every_comment_at_its_depth [of isoDate ?cs False "[112]" mounted "[0]"] u
  have b: "threads isoDate False (cells mounted) [112] ?cs = Inl RangeError
        \<and> rendered_at isoDate False [112] ?cs mounted [0] = None"
    by blast
  from a b u dates_parse_chain6 show ?thesis
    by blast
qed

text \<open>
  Against C2 as it stands: the sixth comment of the chain, five levels below its root, is
  rendered at depth 5, inside the \<open>comment-replies\<close> block of the comment at depth 4, and
  at no position of depth 4.
\<close>

theorem thread_not_flattened_counterexample:
  "dates_parse isoDate chain6
   \<and> map_option el_key (rendered_at isoDate False [112] chain6 mounted [0, 0, 0, 0, 0, 0]) = Some 15
   \<and> depth_of [0, 0, 0, 0, 0, 0] = 5
   \<and> \<not> (\<exists>p. depth_of p = 4
          \<and> map_option el_key (rendered_at isoDate False [112] chain6 mounted p) = Some 15)"
proof -
  have "map_option (\<lambda>e. (el_key e, el_author e, el_body e, el_comment_reply e))
        (rendered_at isoDate False [112] chain6 mounted [0, 0, 0, 0, 0, 0])
      = map_option (\<lambda>c. (id_c c, author_name c, content c, depth_of [0, 0, 0, 0, 0, 0] > 0))
          (node_at chain6 [0, 0, 0, 0, 0, 0])"
    by (rule rendered_at_node [OF dates_parse_chain6])
  then have k: "map_option el_key
      (rendered_at isoDate False [112] chain6 mounted [0, 0, 0, 0, 0, 0]) = Some 15"
    unfolding node_at_chain6 by (auto simp: leaf_def)
  have d: "depth_of [0, 0, 0, 0, 0, 0] = 5"
    by (simp add: depth_of_def)
  have "\<not> (\<exists>p. depth_of p = 4
          \<and> map_option el_key (rendered_at isoDate False [112] chain6 mounted p) = Some 15)"
  proof
    assume "\<exists>p. depth_of p = 4
          \<and> map_option el_key (rendered_at isoDate False [112] chain6 mounted p) = Some 15"
    then obtain p e where p: "depth_of p = 4"
      and r: "rendered_at isoDate False [112] chain6 mounted p = Some e" and "el_key e = 15"
      by auto
    from rendered_at_Some [OF r] obtain c block where c: "node_at chain6 p = Some c"
      and "e = comment_el False (cells mounted) [112] p c (depth_of p) block"
      by blast
    with \<open>el_key e = 15\<close> have "id_c c = 15"
      by (simp add: comment_el_sel)
    with chain6_depth4 [OF p c] show False
      by simp
  qed
  with k d dates_parse_chain6 show ?thesis by simp
qed

text \<open>
  C10. In the rendered thread, whatever has been clicked or submitted before, the reply
  button and the admin's delete button are offered exactly at depth below 4 (the delete
  button to an admin only), and a comment at depth 4 or deeper has neither button nor an
  open reply form. Hence every submission that names a parent and every deletion issued
  from the thread names a comment standing at depth at most 3, so that a reply made
  through the thread is at depth at most 4.
\<close>

theorem actions_stop_at_maxDepth:
  "(rendered_at validDate isAdmin slug comments
       (run validDate throws isAdmin slug comments events) p = Some e \<longrightarrow>
      (ReplyButton \<in> offered e \<longleftrightarrow> depth_of p < 4)
      \<and> (DeleteButton \<in> offered e \<longleftrightarrow> depth_of p < 4 \<and> isAdmin)
      \<and> (4 \<le> depth_of p \<longrightarrow> el_form e = None))
   \<and> (\<forall>eff \<in> set (issued (run validDate throws isAdmin slug comments events)). \<forall>cid.
        target eff = Some cid \<longrightarrow> at_depth_below comments 4 cid)"
proof
  let ?st = "run validDate throws isAdmin slug comments events"
  have i: "thread_inv comments ?st"
    by (rule inv_run)
  show "rendered_at validDate isAdmin slug comments ?st p = Some e \<longrightarrow>
      (ReplyButton \<in> offered e \<longleftrightarrow> depth_of p < 4)
      \<and> (DeleteButton \<in> offered e \<longleftrightarrow> depth_of p < 4 \<and> isAdmin)
      \<and> (4 \<le> depth_of p \<longrightarrow> el_form e = None)"
  proof
    assume "rendered_at validDate isAdmin slug comments ?st p = Some e"
    from rendered_at_Some [OF this] obtain c block where
      e: "e = comment_el isAdmin (cells ?st) slug p c (depth_of p) block"
      by blast
    have "cells ?st p \<longrightarrow> depth_of p < 4"
      using i by (simp add: thread_inv_def maxDepth_def)
    then show "(ReplyButton \<in> offered e \<longleftrightarrow> depth_of p < 4)
      \<and> (DeleteButton \<in> offered e \<longleftrightarrow> depth_of p < 4 \<and> isAdmin)
      \<and> (4 \<le> depth_of p \<longrightarrow> el_form e = None)"
      by (auto simp: e offered_comment_el comment_el_sel maxDepth_def)
  qed
  show "\<forall>eff \<in> set (issued ?st). \<forall>cid.
        target eff = Some cid \<longrightarrow> at_depth_below comments 4 cid"
    using i by (simp add: thread_inv_def maxDepth_def)
qed

text \<open>
  The session on the chain: nothing comes of the tries at depth 4, and the reply and the
  deletion at depth 3 name comment 13.
\<close>

theorem actions_stop_at_maxDepth_witness:
  "rendered_at isoDate True [112] chain6
      (run isoDate nothing_throws True [112] chain6 chain6_session) [0, 0, 0, 0, 0] \<noteq> None
   \<and> offered (the (rendered_at isoDate True [112] chain6
         (run isoDate nothing_throws True [112] chain6 chain6_session) [0, 0, 0, 0, 0])) = {}
   \<and> el_form (the (rendered_at isoDate True [112] chain6
         (run isoDate nothing_throws True [112] chain6 chain6_session) [0, 0, 0, 0, 0])) = None
   \<and> DeleteComment 13 \<in> set (issued (run isoDate nothing_throws True [112] chain6 chain6_session))
   \<and> at_depth_below chain6 4 13"
proof -
  let ?st = "run isoDate nothing_throws True [112] chain6 chain6_session"
  obtain e where r: "rendered_at isoDate True [112] chain6 ?st [0, 0, 0, 0, 0] = Some e"
    using rendered_at_chain6_4 [of True "[112]" ?st] by blast
  have d: "depth_of [0, 0, 0, 0, 0] = 4"
    by (simp add: depth_of_def)
  have i: "DeleteComment 13 \<in> set (issued ?st)"
    by (simp add: run_chain6)
  note t = actions_stop_at_maxDepth
    [of isoDate True "[112]" chain6 nothing_throws chain6_session "[0, 0, 0, 0, 0]" e]
  from t r have "(ReplyButton \<in> offered e \<longleftrightarrow> depth_of [0, 0, 0, 0, 0] < 4)
      \<and> (DeleteButton \<in> offered e \<longleftrightarrow> depth_of [0, 0, 0, 0, 0] < 4 \<and> True)
      \<and> (4 \<le> depth_of [0, 0, 0, 0, 0] \<longrightarrow> el_form e = None)"
    by blast
  then have b: "ReplyButton \<notin> offered e" "DeleteButton \<notin> offered e" and f: "el_form e = None"
    unfolding d by simp_all
  have o: "offered e = {}"
  proof (rule equals0I)
    fix x
    assume "x \<in> offered e"
    with b show False
      by (cases x) simp_all
  qed
  from t have "\<forall>eff \<in> set (issued ?st). \<forall>cid.
      target eff = Some cid \<longrightarrow> at_depth_below chain6 4 cid"
    by (rule conjunct2)
  with i have "target (DeleteComment 13) = Some 13 \<longrightarrow> at_depth_below chain6 4 13"
    by blast
  then have a: "at_depth_below chain6 4 13"
    by simp
  show ?thesis
    unfolding r option.sel using o f i a by simp
qed

section \<open>The moderation tab\<close>

lemma commentStatus_foldl:
  "commentStatus tab \<in> set status_options \<Longrightarrow>
     commentStatus (foldl tab_dispatch tab events) \<in> set status_options"
proof (induction events arbitrary: tab)
  case Nil
  then show ?case by simp
next
  case (Cons ev events)
  have "commentStatus (tab_dispatch tab ev) \<in> set status_options"
    using Cons.prems by (cases ev) simp_all
  then show ?case
    using Cons.IH by simp
qed

lemma status_of_query:
  "s \<noteq> [] \<Longrightarrow>
     filter (\<lambda>(k, v). k = ''status'') (getAllComments page perPage (Some s)) = [(''status'', s)]"
  by (simp add: getAllComments_def)

text \<open>
  C5. The status filter of the moderator's listing ranges over exactly the three values
  \<open>all\<close>, \<open>pending\<close> and \<open>approved\<close>: these are the options of the select,
  \<open>rejected\<close> is not among them, and whatever the moderator does in the tab, the request
  for the listing carries exactly one \<open>status\<close> parameter, holding one of the three.
\<close>

theorem status_filter_is_all_pending_or_approved:
  "set status_options = {''all'', ''pending'', ''approved''}
   \<and> ''rejected'' \<notin> set status_options
   \<and> (\<exists>s \<in> {''all'', ''pending'', ''approved''}.
        filter (\<lambda>(k, v). k = ''status'') (comments_query (foldl tab_dispatch tab_opened events))
          = [(''status'', s)])"
proof -
  have o: "set status_options = {''all'', ''pending'', ''approved''}"
    by (auto simp: status_options_def)
  have "commentStatus (foldl tab_dispatch tab_opened events) \<in> set status_options"
    by (rule commentStatus_foldl) (simp add: tab_opened_def status_options_def)
  then have s: "commentStatus (foldl tab_dispatch tab_opened events) \<in> {''all'', ''pending'', ''approved''}"
    using o by simp
  then have "commentStatus (foldl tab_dispatch tab_opened events) \<noteq> []"
    by auto
  then have "filter (\<lambda>(k, v). k = ''status'') (comments_query (foldl tab_dispatch tab_opened events))
      = [(''status'', commentStatus (foldl tab_dispatch tab_opened events))]"
    unfolding comments_query_def by (rule status_of_query)
  with s o show ?thesis
    by (auto simp del: filter.simps)
qed

theorem status_filter_is_all_pending_or_approved_witness:
  "comments_query (foldl tab_dispatch tab_opened [SelectStatus 1, Next 10, SelectStatus 7])
     = [(''page'', ''2''), (''per_page'', ''10''), (''status'', ''pending'')]
   \<and> ''rejected'' \<notin> set status_options"
proof -
  have "comments_query (foldl tab_dispatch tab_opened [SelectStatus 1, Next 10, SelectStatus 7])
     = [(''page'', ''2''), (''per_page'', ''10''), (''status'', ''pending'')]"
    by (simp add: comments_query_def getAllComments_def tab_opened_def status_options_def
        commentsTotalPages_def commentsPerPage_def toString.simps)
  with status_filter_is_all_pending_or_approved
    [of "[SelectStatus 1, Next 10, SelectStatus 7]"]
  show ?thesis by simp
qed

lemma comments_table_Inr:
  "comments_table V cs = Inr rows \<longleftrightarrow> map (render_row V) cs = map Inr rows"
  by (auto simp: comments_table_def collect_Inr)

lemma comments_table_row:
  assumes "comments_table V cs = Inr rows" and "i < length cs"
  shows "render_row V (cs ! i) = Inr (rows ! i)" and "length rows = length cs"
proof -
  from assms(1) have m: "map (render_row V) cs = map Inr rows"
    by (simp add: comments_table_Inr)
  then show l: "length rows = length cs"
    by (metis length_map)
  from m have "map (render_row V) cs ! i = map Inr rows ! i"
    by simp
  with assms(2) l show "render_row V (cs ! i) = Inr (rows ! i)"
    by simp
qed

lemma render_row_Inr:
  "render_row V c = Inr r \<Longrightarrow>
     V (created_at c)
     \<and> row_key r = id_c c
     \<and> row_badge r = (if is_approved c then (''published'', ''admin.comments.approved'')
                      else (''draft'', ''admin.comments.pending''))
     \<and> row_buttons r = (if is_approved c then [RejectButton, DeleteRowButton]
                        else [ApproveButton, DeleteRowButton])"
  by (auto simp: render_row_def split: if_splits)

text \<open>
  C3, as amended. The moderation status a comment carries is one of exactly two values,
  approved or not approved: in every table that renders, the badge of a row is
  \<open>approved\<close> or \<open>pending\<close> as \<open>is_approved\<close> says, the buttons are reject and delete
  or approve and delete accordingly, and rows whose comments agree on \<open>is_approved\<close>
  show the same badge and the same buttons.
\<close>

theorem status_is_two_valued:
  "(comments_table validDate comments = Inr rows \<and> i < length comments \<longrightarrow>
      row_badge (rows ! i) =
        (if is_approved (comments ! i) then (''published'', ''admin.comments.approved'')
         else (''draft'', ''admin.comments.pending''))
      \<and> row_buttons (rows ! i) =
        (if is_approved (comments ! i) then [RejectButton, DeleteRowButton]
         else [ApproveButton, DeleteRowButton]))
   \<and> (comments_table validDate comments = Inr rows \<and> i < length comments \<and> j < length comments
        \<and> is_approved (comments ! i) = is_approved (comments ! j) \<longrightarrow>
      row_badge (rows ! i) = row_badge (rows ! j) \<and> row_buttons (rows ! i) = row_buttons (rows ! j))"
proof -
  have r: "row_badge (rows ! k) =
        (if is_approved (comments ! k) then (''published'', ''admin.comments.approved'')
         else (''draft'', ''admin.comments.pending''))
      \<and> row_buttons (rows ! k) =
        (if is_approved (comments ! k) then [RejectButton, DeleteRowButton]
         else [ApproveButton, DeleteRowButton])"
    if "comments_table validDate comments = Inr rows" "k < length comments" for k
    using render_row_Inr [OF comments_table_row(1) [OF that]] by blast
  show ?thesis
  proof (intro conjI impI)
    assume a: "comments_table validDate comments = Inr rows \<and> i < length comments"
    then show "row_badge (rows ! i) =
        (if is_approved (comments ! i) then (''published'', ''admin.comments.approved'')
         else (''draft'', ''admin.comments.pending''))"
      using r [of i] by blast
    from a show "row_buttons (rows ! i) =
        (if is_approved (comments ! i) then [RejectButton, DeleteRowButton]
         else [ApproveButton, DeleteRowButton])"
      using r [of i] by blast
  next
    assume a: "comments_table validDate comments = Inr rows \<and> i < length comments
        \<and> j < length comments \<and> is_approved (comments ! i) = is_approved (comments ! j)"
    then show "row_badge (rows ! i) = row_badge (rows ! j)"
      using r [of i] r [of j] by simp
    from a show "row_buttons (rows ! i) = row_buttons (rows ! j)"
      using r [of i] r [of j] by simp
  qed
qed

text \<open>
  A listing of three comments, two held and one approved, and the table it renders to.
\<close>

lemma comments_table_example:
  "comments_table isoDate [stored 7 False, stored 8 False, stored 9 True] =
     Inr [\<lparr>row_key = 7, row_author = [65, 110, 110], row_content = [104, 105],
           row_badge = (''draft'', ''admin.comments.pending''),
           row_buttons = [ApproveButton, DeleteRowButton]\<rparr>,
          \<lparr>row_key = 8, row_author = [65, 110, 110], row_content = [104, 105],
           row_badge = (''draft'', ''admin.comments.pending''),
           row_buttons = [ApproveButton, DeleteRowButton]\<rparr>,
          \<lparr>row_key = 9, row_author = [65, 110, 110], row_content = [104, 105],
           row_badge = (''published'', ''admin.comments.approved''),
           row_buttons = [RejectButton, DeleteRowButton]\<rparr>]"
  by (simp add: comments_table_def render_row_def stored_def isoDate_date_2024)

theorem status_is_two_valued_witness:
  "(\<exists>rows. comments_table isoDate [stored 7 False, stored 8 False, stored 9 True] = Inr rows
      \<and> row_badge (rows ! 0) = (''draft'', ''admin.comments.pending'')
      \<and> row_badge (rows ! 0) = row_badge (rows ! 1)
      \<and> row_buttons (rows ! 0) = row_buttons (rows ! 1)
      \<and> row_buttons (rows ! 2) = [RejectButton, DeleteRowButton])"
proof -
  let ?cs = "[stored 7 False, stored 8 False, stored 9 True]"
  obtain rows where t: "comments_table isoDate ?cs = Inr rows"
    using comments_table_example by blast
  have a: "\<not> is_approved (?cs ! 0)" "\<not> is_approved (?cs ! 1)" "is_approved (?cs ! 2)"
    by (simp_all add: stored_def)
  have l: "(0::nat) < length ?cs" "(1::nat) < length ?cs" "(2::nat) < length ?cs"
    by simp_all
  from status_is_two_valued [of isoDate ?cs rows 0 1] t l a
  have "row_badge (rows ! 0) = (''draft'', ''admin.comments.pending'')"
    and "row_badge (rows ! 0) = row_badge (rows ! 1)"
    and "row_buttons (rows ! 0) = row_buttons (rows ! 1)"
    by auto
  moreover from status_is_two_valued [of isoDate ?cs rows 2 2] t l a
  have "row_buttons (rows ! 2) = [RejectButton, DeleteRowButton]"
    by simp
  ultimately show ?thesis
    using t by blast
qed

text \<open>
  Against C3 as it stands: the record has no third status, and no table shows three rows
  with pairwise different badges.
\<close>

theorem status_is_three_valued_counterexample:
  "\<not> (\<exists>a b c. is_approved a \<noteq> is_approved b \<and> is_approved b \<noteq> is_approved c
         \<and> is_approved a \<noteq> is_approved c)
   \<and> \<not> (\<exists>validDate comments rows i j k.
         comments_table validDate comments = Inr rows
         \<and> i < length comments \<and> j < length comments \<and> k < length comments
         \<and> row_badge (rows ! i) \<noteq> row_badge (rows ! j)
         \<and> row_badge (rows ! j) \<noteq> row_badge (rows ! k)
         \<and> row_badge (rows ! i) \<noteq> row_badge (rows ! k))"
proof (intro conjI notI)
  assume "\<exists>a b c. is_approved a \<noteq> is_approved b \<and> is_approved b \<noteq> is_approved c
         \<and> is_approved a \<noteq> is_approved c"
  then show False
    by blast
next
  assume "\<exists>validDate comments rows i j k.
         comments_table validDate comments = Inr rows
         \<and> i < length comments \<and> j < length comments \<and> k < length comments
         \<and> row_badge (rows ! i) \<noteq> row_badge (rows ! j)
         \<and> row_badge (rows ! j) \<noteq> row_badge (rows ! k)
         \<and> row_badge (rows ! i) \<noteq> row_badge (rows ! k)"
  then obtain V cs rows i j k where t: "comments_table V cs = Inr rows"
    and l: "i < length cs" "j < length cs" "k < length cs"
    and d: "row_badge (rows ! i) \<noteq> row_badge (rows ! j)"
      "row_badge (rows ! j) \<noteq> row_badge (rows ! k)"
      "row_badge (rows ! i) \<noteq> row_badge (rows ! k)"
    by blast
  have b: "row_badge (rows ! n) =
        (if is_approved (cs ! n) then (''published'', ''admin.comments.approved'')
         else (''draft'', ''admin.comments.pending''))" if "n < length cs" for n
    using render_row_Inr [OF comments_table_row(1) [OF t that]] by blast
  from d show False
    unfolding b [OF l(1)] b [OF l(2)] b [OF l(3)]
    by (auto split: if_splits)
qed

text \<open>
  What a click on a row does: in a table that renders, approve calls \<open>approveComment\<close>
  on the rows of comments that are not approved and is not there to click on the others;
  reject calls \<open>rejectComment\<close> on the rows of approved comments only.
\<close>

lemma click_row_calls:
  assumes "comments_table V cs = Inr rows" and "i < length cs"
  shows "click_row V cs i ApproveButton confirmed =
      (if is_approved (cs ! i) then None else Some (approveComment (id_c (cs ! i))))"
    and "click_row V cs i RejectButton confirmed =
      (if is_approved (cs ! i) then Some (rejectComment (id_c (cs ! i))) else None)"
  using render_row_Inr [OF comments_table_row(1) [OF assms]] comments_table_row(2) [OF assms] assms
  by (simp_all add: click_row_def)

section \<open>The rate limiter keeps its bound\<close>

lemma allowed_subset: "set (allowed limit window store calls) \<subseteq> set calls"
proof (induction calls arbitrary: store)
  case Nil
  then show ?case by simp
next
  case (Cons call calls)
  obtain key now where call: "call = (key, now)"
    by (cases call)
  show ?case
    using Cons.IH by (auto simp: call split: prod.splits)
qed

lemma in_window_none:
  assumes "\<forall>(k, t) \<in> set events. a + window < t"
  shows "in_window key a window events = 0"
  using assms by (auto simp: in_window_def filter_empty_conv)

lemma in_window_Nil: "in_window key a window [] = 0"
  by (simp add: in_window_def)

lemma in_window_append:
  "in_window key a window (xs @ ys) = in_window key a window xs + in_window key a window ys"
  by (simp add: in_window_def)

lemma kept_after_a:
  fixes a now window :: int
  assumes "now - window \<le> a"
  shows "filter (\<lambda>t. a \<le> t) (filter (\<lambda>t. \<not> t < now - window) ts) = filter (\<lambda>t. a \<le> t) ts"
  using assms by (induction ts) auto

lemma window_bound_from:
  fixes a window :: int
  assumes "0 \<le> window" and "sorted (map snd calls)"
    and "length (filter (\<lambda>t. a \<le> t) (store key)) \<le> limit"
  shows "length (filter (\<lambda>t. a \<le> t) (store key))
           + in_window key a window (allowed limit window store calls) \<le> limit"
  using assms(2,3)
proof (induction calls arbitrary: store)
  case Nil
  then show ?case by (simp add: in_window_def)
next
  case (Cons call calls)
  obtain k now where call: "call = (k, now)"
    by (cases call)
  let ?kept = "filter (\<lambda>t. \<not> t < now - window) (store k)"
  let ?ok = "length ?kept < limit"
  let ?store' = "snd (tryConsume k limit window now store)"
  have sorted: "sorted (map snd calls)" and later: "\<forall>c \<in> set calls. now \<le> snd c"
    using Cons.prems(1) by (auto simp: call)
  have unfold: "allowed limit window store (call # calls) =
      (if ?ok then [(k, now)] else []) @ allowed limit window ?store' calls"
    by (simp add: call tryConsume_def Let_def)
  have split: "in_window key a window (allowed limit window store (call # calls)) =
      in_window key a window (if ?ok then [(k, now)] else [])
      + in_window key a window (allowed limit window ?store' calls)"
    by (simp only: unfold in_window_append)
  show ?case
  proof (cases "k = key")
    case False
    then have "?store' key = store key"
      by (simp add: tryConsume_def Let_def)
    moreover have "in_window key a window (if ?ok then [(k, now)] else []) = 0"
      using False by (simp add: in_window_def)
    ultimately show ?thesis
      using Cons.IH [OF sorted, of ?store'] Cons.prems(2)
      by (simp add: split)
  next
    case True
    show ?thesis
    proof (cases "a + window < now")
      case beyond: True
      have "\<forall>(k', t) \<in> set (call # calls). a + window < t"
        using beyond later by (fastforce simp: call)
      then have "\<forall>(k', t) \<in> set (allowed limit window store (call # calls)). a + window < t"
        using allowed_subset [of limit window store "call # calls"] by blast
      then have "in_window key a window (allowed limit window store (call # calls)) = 0"
        by (rule in_window_none)
      then show ?thesis
        using Cons.prems(2) by simp
    next
      case within: False
      then have na: "now - window \<le> a"
        by simp
      have kept: "filter (\<lambda>t. a \<le> t) ?kept = filter (\<lambda>t. a \<le> t) (store key)"
        using kept_after_a [OF na] True by simp
      then have le_kept: "length (filter (\<lambda>t. a \<le> t) (store key)) \<le> length ?kept"
        by (metis length_filter_le)
      show ?thesis
      proof (cases ?ok)
        case denied: False
        then have "?store' key = ?kept"
          using True by (simp add: tryConsume_def Let_def)
        then have "length (filter (\<lambda>t. a \<le> t) (?store' key))
            = length (filter (\<lambda>t. a \<le> t) (store key))"
          using kept by simp
        then show ?thesis
          using Cons.IH [OF sorted, of ?store'] Cons.prems(2) denied
          by (simp add: split in_window_Nil)
      next
        case granted: True
        then have s': "?store' key = ?kept @ [now]"
          using \<open>k = key\<close> by (simp add: tryConsume_def Let_def)
        show ?thesis
        proof (cases "a \<le> now")
          case True
          then have "length (filter (\<lambda>t. a \<le> t) (?store' key))
              = Suc (length (filter (\<lambda>t. a \<le> t) (store key)))"
            using s' kept by simp
          moreover have "in_window key a window [(k, now)] = 1"
            using True within \<open>k = key\<close> by (simp add: in_window_def)
          moreover have "Suc (length (filter (\<lambda>t. a \<le> t) (store key))) \<le> limit"
            using le_kept granted by simp
          ultimately show ?thesis
            using Cons.IH [OF sorted, of ?store'] granted
            by (simp add: split)
        next
          case False
          then have "length (filter (\<lambda>t. a \<le> t) (?store' key))
              = length (filter (\<lambda>t. a \<le> t) (store key))"
            using s' kept by simp
          moreover have "in_window key a window [(k, now)] = 0"
            using False by (simp add: in_window_def)
          ultimately show ?thesis
            using Cons.IH [OF sorted, of ?store'] Cons.prems(2) granted
            by (simp add: split)
        qed
      qed
    qed
  qed
qed

text \<open>
  C9, as amended. For any sequence of \<open>tryConsume\<close> calls, concurrent ones taken in the
  order in which they take effect, in which no call works with a clock reading older than
  that of a call before it, at most \<open>limit\<close> calls on a key are allowed within any
  interval of length \<open>window\<close>: the call that would be the \<open>limit + 1\<close>-th allowed
  event inside a window is refused.
\<close>

theorem tryConsume_never_exceeds_limit:
  assumes "sorted (map snd calls)"
  shows "in_window key a window (allowed limit window (\<lambda>k. []) calls) \<le> limit"
proof (cases "0 \<le> window")
  case True
  from window_bound_from [OF True assms, of a "\<lambda>k. []" key limit] show ?thesis
    by simp
next
  case False
  then have "\<not> (a \<le> t \<and> t \<le> a + window)" for t
    by auto
  then have "filter (\<lambda>(k, t). k = key \<and> a \<le> t \<and> t \<le> a + window)
      (allowed limit window (\<lambda>k. []) calls) = []"
    by (auto simp: filter_empty_conv)
  then show ?thesis
    by (simp add: in_window_def)
qed

text \<open>
  Two events in five minutes: the third and fourth calls of the first address are
  refused, the one at 301 seconds is allowed again, and the second address is not
  affected.
\<close>

lemma allowed_example:
  "allowed 2 300 (\<lambda>k. []) [(''10.0.0.1'', 0), (''10.0.0.1'', 10), (''10.0.0.2'', 15),
      (''10.0.0.1'', 20), (''10.0.0.1'', 300), (''10.0.0.1'', 301)]
   = [(''10.0.0.1'', 0), (''10.0.0.1'', 10), (''10.0.0.2'', 15), (''10.0.0.1'', 301)]"
  by (simp add: tryConsume_def Let_def)

theorem tryConsume_never_exceeds_limit_witness:
  "sorted (map snd [(''10.0.0.1'', 0::int), (''10.0.0.1'', 10), (''10.0.0.2'', 15),
      (''10.0.0.1'', 20), (''10.0.0.1'', 300), (''10.0.0.1'', 301)])
   \<and> in_window ''10.0.0.1'' 0 300
        (allowed 2 300 (\<lambda>k. []) [(''10.0.0.1'', 0), (''10.0.0.1'', 10), (''10.0.0.2'', 15),
           (''10.0.0.1'', 20), (''10.0.0.1'', 300), (''10.0.0.1'', 301)]) = 2
   \<and> in_window ''10.0.0.1'' 0 300
        (allowed 2 300 (\<lambda>k. []) [(''10.0.0.1'', 0), (''10.0.0.1'', 10), (''10.0.0.2'', 15),
           (''10.0.0.1'', 20), (''10.0.0.1'', 300), (''10.0.0.1'', 301)]) \<le> 2"
proof -
  have s: "sorted (map snd [(''10.0.0.1'', 0::int), (''10.0.0.1'', 10), (''10.0.0.2'', 15),
      (''10.0.0.1'', 20), (''10.0.0.1'', 300), (''10.0.0.1'', 301)])"
    by simp
  have e: "in_window ''10.0.0.1'' 0 300
        (allowed 2 300 (\<lambda>k. []) [(''10.0.0.1'', 0), (''10.0.0.1'', 10), (''10.0.0.2'', 15),
           (''10.0.0.1'', 20), (''10.0.0.1'', 300), (''10.0.0.1'', 301)]) = 2"
    unfolding allowed_example by (simp add: in_window_def)
  from tryConsume_never_exceeds_limit [OF s, of "''10.0.0.1''" 0 300 2] s e
  show ?thesis by simp
qed

text \<open>
  Against C9 as it stands: two calls overlap, and the one that takes effect last works
  with the older reading of the clock (9, after the call at 13 has pruned the events at
  5 and 7). All four calls are allowed, three of them within the four seconds from 5 to
  9, under a limit of two and a window of five seconds.
\<close>

theorem stale_clock_reading_counterexample:
  "allowed 2 5 (\<lambda>k. []) [(''10.0.0.1'', 5), (''10.0.0.1'', 7), (''10.0.0.1'', 13), (''10.0.0.1'', 9)]
     = [(''10.0.0.1'', 5), (''10.0.0.1'', 7), (''10.0.0.1'', 13), (''10.0.0.1'', 9)]
   \<and> in_window ''10.0.0.1'' 5 5
        (allowed 2 5 (\<lambda>k. [])
           [(''10.0.0.1'', 5), (''10.0.0.1'', 7), (''10.0.0.1'', 13), (''10.0.0.1'', 9)]) = 3
   \<and> \<not> in_window ''10.0.0.1'' 5 5
        (allowed 2 5 (\<lambda>k. [])
           [(''10.0.0.1'', 5), (''10.0.0.1'', 7), (''10.0.0.1'', 13), (''10.0.0.1'', 9)]) \<le> 2"
  by (simp add: tryConsume_def Let_def in_window_def)

end
